theory Spec2Isabelle
  imports Main "HOL-Library.AList"
begin

section \<open>Run-time failures\<close>

text \<open>
  Go aborts with a run-time panic on a nil dereference and on an index out of range.
  Functions of the model that can reach such a point return \<open>panic + 'a\<close>.
\<close>

datatype panic = NilDereference | IndexOutOfRange

section \<open>Binary search tree (stl/bst.go)\<close>

text \<open>
  A \<open>*BSTNode[T]\<close> is either nil or points to a node that owns its two children.
  Nodes are never shared, so the pointer structure is a tree and in-place mutation of a
  node is the construction of the updated tree. \<open>Size\<close> and the ranks are Go \<open>int\<close>
  (64 bits); the model uses unbounded integers, since the number of nodes of a tree in
  memory stays far below \<open>2^63\<close>.
\<close>

datatype 'a BSTNode =
  BSTNil
  | BSTNode (Value: 'a) (Left: "'a BSTNode") (Right: "'a BSTNode")

record 'a BST =
  Root :: "'a BSTNode"
  Less :: "'a \<Rightarrow> 'a \<Rightarrow> bool"
  Size :: int

definition NewBST :: "('a \<Rightarrow> 'a \<Rightarrow> bool) \<Rightarrow> 'a BST" where
  "NewBST lessf = \<lparr>Root = BSTNil, Less = lessf, Size = 0\<rparr>"

text \<open>
  \<open>insertRecursive\<close> is a method of the tree: it reads the comparator and increments
  \<open>Size\<close> when it attaches a leaf, so it returns the new subtree together with the
  updated tree record.
\<close>

fun insertRecursive :: "'a BST \<Rightarrow> 'a BSTNode \<Rightarrow> 'a \<Rightarrow> 'a BSTNode \<times> 'a BST" where
  "insertRecursive bst BSTNil value = (BSTNode value BSTNil BSTNil, bst\<lparr>Size := Size bst + 1\<rparr>)"
| "insertRecursive bst (BSTNode v l r) value =
     (if Less bst value v then
        (case insertRecursive bst l value of (l', bst') \<Rightarrow> (BSTNode v l' r, bst'))
      else if Less bst v value then
        (case insertRecursive bst r value of (r', bst') \<Rightarrow> (BSTNode v l r', bst'))
      else (BSTNode v l r, bst))"

definition Insert :: "'a BST \<Rightarrow> 'a \<Rightarrow> 'a BST" where
  "Insert bst value =
     (case insertRecursive bst (Root bst) value of (node, bst') \<Rightarrow> bst'\<lparr>Root := node\<rparr>)"

definition NewBSTFromSlice :: "'a list \<Rightarrow> ('a \<Rightarrow> 'a \<Rightarrow> bool) \<Rightarrow> 'a BST" where
  "NewBSTFromSlice slice lessf = fold (\<lambda>item bst. Insert bst item) slice (NewBST lessf)"

fun searchRecursive :: "'a BST \<Rightarrow> 'a BSTNode \<Rightarrow> 'a \<Rightarrow> 'a BSTNode" where
  "searchRecursive bst BSTNil value = BSTNil"
| "searchRecursive bst (BSTNode v l r) value =
     (if v = value then BSTNode v l r
      else if Less bst value v then searchRecursive bst l value
      else searchRecursive bst r value)"

definition Search :: "'a BST \<Rightarrow> 'a \<Rightarrow> bool" where
  "Search bst value = (searchRecursive bst (Root bst) value \<noteq> BSTNil)"

text \<open>
  \<open>findMinValue\<close> follows the left links; it dereferences its argument without a nil
  check. \<open>deleteRecursive\<close> of the tree (the trie has a method of the same name) replaces
  a node with two children by its in-order successor.
\<close>

fun findMinValue :: "'a BSTNode \<Rightarrow> panic + 'a" where
  "findMinValue BSTNil = Inl NilDereference"
| "findMinValue (BSTNode v l r) = (if l \<noteq> BSTNil then findMinValue l else Inr v)"

fun deleteRecursive_bst :: "'a BST \<Rightarrow> 'a BSTNode \<Rightarrow> 'a \<Rightarrow> panic + 'a BSTNode" where
  "deleteRecursive_bst bst BSTNil value = Inr BSTNil"
| "deleteRecursive_bst bst (BSTNode v l r) value =
     (if Less bst value v then
        (case deleteRecursive_bst bst l value of
           Inl p \<Rightarrow> Inl p
         | Inr l' \<Rightarrow> Inr (BSTNode v l' r))
      else if Less bst v value then
        (case deleteRecursive_bst bst r value of
           Inl p \<Rightarrow> Inl p
         | Inr r' \<Rightarrow> Inr (BSTNode v l r'))
      else if l = BSTNil then Inr r
      else if r = BSTNil then Inr l
      else
        (case findMinValue r of
           Inl p \<Rightarrow> Inl p
         | Inr m \<Rightarrow>
             (case deleteRecursive_bst bst r m of
                Inl p \<Rightarrow> Inl p
              | Inr r' \<Rightarrow> Inr (BSTNode m l r'))))"

definition Delete :: "'a BST \<Rightarrow> 'a \<Rightarrow> panic + (bool \<times> 'a BST)" where
  "Delete bst value =
     (if Search bst value then
        (case deleteRecursive_bst bst (Root bst) value of
           Inl p \<Rightarrow> Inl p
         | Inr node \<Rightarrow> Inr (True, bst\<lparr>Root := node, Size := Size bst - 1\<rparr>))
      else Inr (False, bst))"

definition Clear :: "'a BST \<Rightarrow> 'a BST" where
  "Clear bst = bst\<lparr>Root := BSTNil, Size := 0\<rparr>"

fun sizeOf :: "'a BSTNode \<Rightarrow> int" where
  "sizeOf BSTNil = 0"
| "sizeOf (BSTNode v l r) = 1 + sizeOf l + sizeOf r"

fun rankRecursive :: "'a BST \<Rightarrow> 'a BSTNode \<Rightarrow> 'a \<Rightarrow> int" where
  "rankRecursive bst BSTNil value = 0"
| "rankRecursive bst (BSTNode v l r) value =
     (if Less bst value v then rankRecursive bst l value
      else if Less bst v value then 1 + sizeOf l + rankRecursive bst r value
      else sizeOf l)"

definition Rank :: "'a BST \<Rightarrow> 'a \<Rightarrow> int" where
  "Rank bst value = rankRecursive bst (Root bst) value"

fun selectRecursive :: "'a BSTNode \<Rightarrow> int \<Rightarrow> 'a BSTNode" where
  "selectRecursive BSTNil rank = BSTNil"
| "selectRecursive (BSTNode v l r) rank =
     (let leftSize = sizeOf l in
      if rank < leftSize then selectRecursive l rank
      else if rank > leftSize then selectRecursive r (rank - leftSize - 1)
      else BSTNode v l r)"

text \<open>
  \<open>Select\<close> returns \<open>(value, found)\<close>; \<open>None\<close> is the pair \<open>(zero, false)\<close>. The
  source reads \<open>result.Value\<close> without a nil check, which panics when
  \<open>selectRecursive\<close> returns nil.
\<close>

definition Select :: "'a BST \<Rightarrow> int \<Rightarrow> panic + 'a option" where
  "Select bst rank =
     (if rank < 0 \<or> rank \<ge> Size bst then Inr None
      else (case selectRecursive (Root bst) rank of
              BSTNil \<Rightarrow> Inl NilDereference
            | BSTNode v l r \<Rightarrow> Inr (Some v)))"

definition IsEmpty :: "'a BST \<Rightarrow> bool" where
  "IsEmpty bst = (Size bst = 0)"

text \<open>
  \<open>heightRecursive\<close> takes the maximum through \<open>math.Max\<close> on \<open>float64\<close>; the
  conversion is exact for every height a tree in memory can have, so the model takes the
  maximum of the integers.
\<close>

fun heightRecursive :: "'a BSTNode \<Rightarrow> int" where
  "heightRecursive BSTNil = -1"
| "heightRecursive (BSTNode v l r) = 1 + max (heightRecursive l) (heightRecursive r)"

definition Height :: "'a BST \<Rightarrow> int" where
  "Height bst = heightRecursive (Root bst)"

fun isBalancedRecursive :: "'a BSTNode \<Rightarrow> int" where
  "isBalancedRecursive BSTNil = 0"
| "isBalancedRecursive (BSTNode v l r) =
     (let leftHeight = isBalancedRecursive l in
      if leftHeight = -1 then -1
      else let rightHeight = isBalancedRecursive r in
        if rightHeight = -1 then -1
        else if \<bar>leftHeight - rightHeight\<bar> > 1 then -1
        else 1 + max leftHeight rightHeight)"

definition IsBalanced :: "'a BST \<Rightarrow> bool" where
  "IsBalanced bst = (isBalancedRecursive (Root bst) \<noteq> -1)"

text \<open>The traversals append to the slice behind \<open>result\<close>; the model returns it.\<close>

fun inOrderRecursive :: "'a BSTNode \<Rightarrow> 'a list \<Rightarrow> 'a list" where
  "inOrderRecursive BSTNil result = result"
| "inOrderRecursive (BSTNode v l r) result =
     inOrderRecursive r (inOrderRecursive l result @ [v])"

definition InOrder :: "'a BST \<Rightarrow> 'a list" where
  "InOrder bst = inOrderRecursive (Root bst) []"

fun preOrderRecursive :: "'a BSTNode \<Rightarrow> 'a list \<Rightarrow> 'a list" where
  "preOrderRecursive BSTNil result = result"
| "preOrderRecursive (BSTNode v l r) result =
     preOrderRecursive r (preOrderRecursive l (result @ [v]))"

definition PreOrder :: "'a BST \<Rightarrow> 'a list" where
  "PreOrder bst = preOrderRecursive (Root bst) []"

text \<open>
  The loop of \<open>LevelOrder\<close>: the queue holds node pointers; only non-nil children are
  appended. Reading \<open>node.Value\<close> of a nil entry would panic.
\<close>

function levelOrderLoop :: "'a BSTNode list \<Rightarrow> 'a list \<Rightarrow> panic + 'a list" where
  "levelOrderLoop [] result = Inr result"
| "levelOrderLoop (BSTNil # queue) result = Inl NilDereference"
| "levelOrderLoop (BSTNode v l r # queue) result =
     levelOrderLoop
       ((let q1 = (if l \<noteq> BSTNil then queue @ [l] else queue)
         in if r \<noteq> BSTNil then q1 @ [r] else q1))
       (result @ [v])"
  by pat_completeness auto
termination
  by (relation "measure (\<lambda>(queue, result). sum_list (map size queue))") (auto simp: Let_def)

definition LevelOrder :: "'a BST \<Rightarrow> panic + 'a list" where
  "LevelOrder bst =
     (if Root bst = BSTNil then Inr [] else levelOrderLoop [Root bst] [])"

text \<open>\<open>Clone\<close> walks the source tree in order and inserts every value into a new tree.\<close>

fun cloneRecursive :: "'a BSTNode \<Rightarrow> 'a BST \<Rightarrow> 'a BST" where
  "cloneRecursive BSTNil result = result"
| "cloneRecursive (BSTNode v l r) result =
     cloneRecursive r (Insert (cloneRecursive l result) v)"

definition Clone :: "'a BST \<Rightarrow> 'a BST" where
  "Clone bst = cloneRecursive (Root bst) (NewBST (Less bst))"

text \<open>The tree in which every node has only a right child, holding \<open>xs\<close> from the root down.\<close>

fun chain :: "'a list \<Rightarrow> 'a BSTNode" where
  "chain [] = BSTNil"
| "chain (x # xs) = BSTNode x BSTNil (chain xs)"

text \<open>
  The comparator contract of the containers: a strict total order. The ordering
  invariant of a tree and the agreement of the tracked \<open>Size\<close> with the number of nodes
  make up the invariant of a well-formed tree.
\<close>

definition strict_total_order :: "('a \<Rightarrow> 'a \<Rightarrow> bool) \<Rightarrow> bool" where
  "strict_total_order lessf \<longleftrightarrow>
     (\<forall>a. \<not> lessf a a) \<and>
     (\<forall>a b c. lessf a b \<longrightarrow> lessf b c \<longrightarrow> lessf a c) \<and>
     (\<forall>a b. a \<noteq> b \<longrightarrow> lessf a b \<or> lessf b a)"

fun ordered :: "('a \<Rightarrow> 'a \<Rightarrow> bool) \<Rightarrow> 'a BSTNode \<Rightarrow> bool" where
  "ordered lessf BSTNil = True"
| "ordered lessf (BSTNode v l r) =
     (ordered lessf l \<and> ordered lessf r \<and>
      (\<forall>x \<in> set_BSTNode l. lessf x v) \<and> (\<forall>x \<in> set_BSTNode r. lessf v x))"

definition bst_inv :: "'a BST \<Rightarrow> bool" where
  "bst_inv bst \<longleftrightarrow> ordered (Less bst) (Root bst) \<and> Size bst = sizeOf (Root bst)"

text \<open>The trees that the operations of the container can produce from an empty tree.\<close>

inductive reachable :: "('a \<Rightarrow> 'a \<Rightarrow> bool) \<Rightarrow> 'a BST \<Rightarrow> bool" for lessf where
  new: "reachable lessf (NewBST lessf)"
| insert: "reachable lessf bst \<Longrightarrow> reachable lessf (Insert bst v)"
| delete: "reachable lessf bst \<Longrightarrow> Delete bst v = Inr (b, bst') \<Longrightarrow> reachable lessf bst'"
| clear: "reachable lessf bst \<Longrightarrow> reachable lessf (Clear bst)"

section \<open>Ordered map (stl/treemap.go)\<close>

datatype ('k, 'v) TreeMapNode =
  TMNil
  | TreeMapNode (Key: 'k) (Value_tm: 'v) (Left_tm: "('k, 'v) TreeMapNode")
      (Right_tm: "('k, 'v) TreeMapNode")

record ('k, 'v) TreeMap =
  root_tm :: "('k, 'v) TreeMapNode"
  size_tm :: int
  less_tm :: "'k \<Rightarrow> 'k \<Rightarrow> bool"

definition NewTreeMap :: "('k \<Rightarrow> 'k \<Rightarrow> bool) \<Rightarrow> ('k, 'v) TreeMap" where
  "NewTreeMap lessf = \<lparr>root_tm = TMNil, size_tm = 0, less_tm = lessf\<rparr>"

fun putRecursive ::
  "('k, 'v) TreeMap \<Rightarrow> ('k, 'v) TreeMapNode \<Rightarrow> 'k \<Rightarrow> 'v \<Rightarrow> ('k, 'v) TreeMapNode \<times> ('k, 'v) TreeMap"
where
  "putRecursive tm TMNil key value =
     (TreeMapNode key value TMNil TMNil, tm\<lparr>size_tm := size_tm tm + 1\<rparr>)"
| "putRecursive tm (TreeMapNode k v l r) key value =
     (if less_tm tm key k then
        (case putRecursive tm l key value of (l', tm') \<Rightarrow> (TreeMapNode k v l' r, tm'))
      else if less_tm tm k key then
        (case putRecursive tm r key value of (r', tm') \<Rightarrow> (TreeMapNode k v l r', tm'))
      else (TreeMapNode k value l r, tm))"

definition Put :: "('k, 'v) TreeMap \<Rightarrow> 'k \<Rightarrow> 'v \<Rightarrow> ('k, 'v) TreeMap" where
  "Put tm key value =
     (case putRecursive tm (root_tm tm) key value of (node, tm') \<Rightarrow> tm'\<lparr>root_tm := node\<rparr>)"

text \<open>The loop of \<open>getNode\<close>, started at the root.\<close>

fun getNodeLoop :: "('k, 'v) TreeMap \<Rightarrow> ('k, 'v) TreeMapNode \<Rightarrow> 'k \<Rightarrow> ('k, 'v) TreeMapNode" where
  "getNodeLoop tm TMNil key = TMNil"
| "getNodeLoop tm (TreeMapNode k v l r) key =
     (if less_tm tm key k then getNodeLoop tm l key
      else if less_tm tm k key then getNodeLoop tm r key
      else TreeMapNode k v l r)"

definition getNode :: "('k, 'v) TreeMap \<Rightarrow> 'k \<Rightarrow> ('k, 'v) TreeMapNode" where
  "getNode tm key = getNodeLoop tm (root_tm tm) key"

text \<open>\<open>Get\<close> returns \<open>(value, found)\<close>; \<open>None\<close> is \<open>(zero, false)\<close>.\<close>

definition Get :: "('k, 'v) TreeMap \<Rightarrow> 'k \<Rightarrow> 'v option" where
  "Get tm key =
     (case getNode tm key of TMNil \<Rightarrow> None | TreeMapNode k v l r \<Rightarrow> Some v)"

definition ContainsKey :: "('k, 'v) TreeMap \<Rightarrow> 'k \<Rightarrow> bool" where
  "ContainsKey tm key = (getNode tm key \<noteq> TMNil)"

fun sizeOf_tm :: "('k, 'v) TreeMapNode \<Rightarrow> int" where
  "sizeOf_tm TMNil = 0"
| "sizeOf_tm (TreeMapNode k v l r) = 1 + sizeOf_tm l + sizeOf_tm r"

text \<open>The tree with its values erased: the shape and the keys.\<close>

definition structure_tm :: "('k, 'v) TreeMapNode \<Rightarrow> ('k, unit) TreeMapNode" where
  "structure_tm node = map_TreeMapNode id (\<lambda>v. ()) node"

section \<open>Trie (the trie part of stl/set.go)\<close>

subsection \<open>Go strings\<close>

text \<open>
  A Go string is a sequence of bytes, as a HOL \<open>string\<close> is. \<open>len(word)\<close> is the
  number of bytes, \<open>word[i]\<close> is the byte at index \<open>i\<close>, and \<open>for _, char := range word\<close>
  decodes the bytes as UTF-8 into runes (code points); an invalid sequence yields the
  replacement rune \<open>U+FFFD\<close> and consumes one byte. A rune is a Go \<open>int32\<close>; the
  runes that occur here lie between 0 and \<open>0x10FFFF\<close>.
\<close>

type_synonym rune = int

definition RuneError :: rune where
  "RuneError = 0xFFFD"

definition continuation :: "nat \<Rightarrow> bool" where
  "continuation b \<longleftrightarrow> 0x80 \<le> b \<and> b \<le> 0xBF"

text \<open>
  The accepted range of the second byte after the lead byte \<open>b0\<close>: it excludes overlong
  encodings, the surrogates and code points above \<open>0x10FFFF\<close>.
\<close>

definition second_lo :: "nat \<Rightarrow> nat" where
  "second_lo b0 = (if b0 = 0xE0 then 0xA0 else if b0 = 0xF0 then 0x90 else 0x80)"

definition second_hi :: "nat \<Rightarrow> nat" where
  "second_hi b0 = (if b0 = 0xED then 0x9F else if b0 = 0xF4 then 0x8F else 0xBF)"

text \<open>The first rune of a byte sequence and the number of bytes it takes.\<close>

fun decodeRune :: "nat list \<Rightarrow> rune \<times> nat" where
  "decodeRune [] = (RuneError, 0)"
| "decodeRune (b0 # bs) =
     (if b0 < 0x80 then (int b0, 1)
      else if 0xC2 \<le> b0 \<and> b0 \<le> 0xDF then
        (case bs of
           b1 # _ \<Rightarrow>
             if continuation b1 then (int ((b0 - 0xC0) * 64 + (b1 - 0x80)), 2)
             else (RuneError, 1)
         | _ \<Rightarrow> (RuneError, 1))
      else if 0xE0 \<le> b0 \<and> b0 \<le> 0xEF then
        (case bs of
           b1 # b2 # _ \<Rightarrow>
             if second_lo b0 \<le> b1 \<and> b1 \<le> second_hi b0 \<and> continuation b2
             then (int ((b0 - 0xE0) * 4096 + (b1 - 0x80) * 64 + (b2 - 0x80)), 3)
             else (RuneError, 1)
         | _ \<Rightarrow> (RuneError, 1))
      else if 0xF0 \<le> b0 \<and> b0 \<le> 0xF4 then
        (case bs of
           b1 # b2 # b3 # _ \<Rightarrow>
             if second_lo b0 \<le> b1 \<and> b1 \<le> second_hi b0 \<and> continuation b2 \<and> continuation b3
             then (int ((b0 - 0xF0) * 262144 + (b1 - 0x80) * 4096 + (b2 - 0x80) * 64
                        + (b3 - 0x80)), 4)
             else (RuneError, 1)
         | _ \<Rightarrow> (RuneError, 1))
      else (RuneError, 1))"

lemma decodeRune_width: "bs \<noteq> [] \<Longrightarrow> 0 < snd (decodeRune bs)"
  by (cases bs) (auto split: list.splits)

function decodeRunes :: "nat list \<Rightarrow> rune list" where
  "decodeRunes bs =
     (if bs = [] then []
      else fst (decodeRune bs) # decodeRunes (drop (snd (decodeRune bs)) bs))"
  by pat_completeness auto
termination
proof (relation "measure length")
  show "wf (measure length)" by simp
next
  fix bs :: "nat list"
  assume "bs \<noteq> []"
  then show "(drop (snd (decodeRune bs)) bs, bs) \<in> measure length"
    using decodeRune_width[of bs] by (cases bs) auto
qed

declare decodeRunes.simps [simp del]

text \<open>The runes that \<open>range word\<close> yields, in order.\<close>

definition range_runes :: "string \<Rightarrow> rune list" where
  "range_runes word = decodeRunes (map of_char word)"

text \<open>\<open>rune(word[index])\<close>: one byte, converted to a rune without decoding.\<close>

definition byte_rune :: "char \<Rightarrow> rune" where
  "byte_rune c = int (of_char c)"

subsection \<open>Trie nodes and operations\<close>

text \<open>
  \<open>children\<close> is a Go map from runes to owned child nodes: an association list with one
  entry per key. Lookup is \<open>map_of\<close>, assignment \<open>AList.update\<close>, \<open>delete\<close> is
  \<open>AList.delete\<close>, and \<open>len(children) == 0\<close> is emptiness of the list. \<open>value\<close> is
  the \<open>interface{}\<close> payload, \<open>None\<close> for nil.
\<close>

datatype 'v TrieNode =
  TrieNode (children: "(rune \<times> 'v TrieNode) list") (isEnd: bool) (value_of: "'v option")

record 'v Trie =
  root_trie :: "'v TrieNode"
  size_trie :: int

definition newTrieNode :: "'v TrieNode" where
  "newTrieNode = TrieNode [] False None"

definition NewTrie :: "'v Trie" where
  "NewTrie = \<lparr>root_trie = newTrieNode, size_trie = 0\<rparr>"

text \<open>
  The loop of \<open>InsertWithValue\<close> walks down from the root, creating the missing child
  for each rune, and marks the node it ends at. It returns the updated node and whether
  the node was not yet the end of a word (in which case \<open>size\<close> is incremented).
\<close>

fun insertPath :: "'v TrieNode \<Rightarrow> rune list \<Rightarrow> 'v option \<Rightarrow> 'v TrieNode \<times> bool" where
  "insertPath (TrieNode ch e v) [] value = (TrieNode ch True value, \<not> e)"
| "insertPath (TrieNode ch e v) (char # rest) value =
     (let child = (case map_of ch char of None \<Rightarrow> newTrieNode | Some c \<Rightarrow> c)
      in case insertPath child rest value of
           (child', fresh) \<Rightarrow> (TrieNode (AList.update char child' ch) e v, fresh))"

definition InsertWithValue :: "'v Trie \<Rightarrow> string \<Rightarrow> 'v option \<Rightarrow> 'v Trie" where
  "InsertWithValue t word value =
     (case insertPath (root_trie t) (range_runes word) value of
        (root', fresh) \<Rightarrow>
          \<lparr>root_trie = root', size_trie = (if fresh then size_trie t + 1 else size_trie t)\<rparr>)"

definition Insert_trie :: "'v Trie \<Rightarrow> string \<Rightarrow> 'v Trie" where
  "Insert_trie t word = InsertWithValue t word None"

definition NewTrieFromSlice :: "string list \<Rightarrow> 'v Trie" where
  "NewTrieFromSlice words = fold (\<lambda>word t. Insert_trie t word) words NewTrie"

fun searchPath :: "'v TrieNode \<Rightarrow> rune list \<Rightarrow> 'v TrieNode option" where
  "searchPath current [] = Some current"
| "searchPath current (char # rest) =
     (case map_of (children current) char of
        None \<Rightarrow> None
      | Some child \<Rightarrow> searchPath child rest)"

definition searchNode :: "'v Trie \<Rightarrow> string \<Rightarrow> 'v TrieNode option" where
  "searchNode t word = searchPath (root_trie t) (range_runes word)"

definition Search_trie :: "'v Trie \<Rightarrow> string \<Rightarrow> bool" where
  "Search_trie t word =
     (case searchNode t word of None \<Rightarrow> False | Some node \<Rightarrow> isEnd node)"

definition StartsWith :: "'v Trie \<Rightarrow> string \<Rightarrow> bool" where
  "StartsWith t prefix = (searchNode t prefix \<noteq> None)"

text \<open>
  \<open>deleteRecursive\<close> mutates the node it is given and the size of the trie, and returns
  whether its caller should remove the node. The model returns that flag, the node after
  the call (\<open>None\<close> for a nil pointer) and the size. \<open>word[index]\<close> panics when
  \<open>index\<close> is beyond the last byte.
\<close>

function deleteRecursive ::
  "'v TrieNode option \<Rightarrow> string \<Rightarrow> nat \<Rightarrow> int \<Rightarrow> panic + (bool \<times> 'v TrieNode option \<times> int)"
where
  "deleteRecursive node word index sz =
     (case node of
        None \<Rightarrow> Inr (False, None, sz)
      | Some (TrieNode ch e v) \<Rightarrow>
          if index = length word then
            (if e then Inr (ch = [], Some (TrieNode ch False None), sz - 1)
             else Inr (False, node, sz))
          else if index > length word then Inl IndexOutOfRange
          else
            (let char = byte_rune (word ! index); child = map_of ch char in
             if child = None then Inr (False, node, sz)
             else
               (case deleteRecursive child word (index + 1) sz of
                  Inl p \<Rightarrow> Inl p
                | Inr (shouldDeleteChild, child', sz') \<Rightarrow>
                    (let ch' = (case child' of None \<Rightarrow> ch | Some c \<Rightarrow> AList.update char c ch)
                     in if shouldDeleteChild then
                          (let ch'' = AList.delete char ch'
                           in Inr (\<not> e \<and> ch'' = [], Some (TrieNode ch'' e v), sz'))
                        else Inr (False, Some (TrieNode ch' e v), sz')))))"
  by pat_completeness auto
termination
  by (relation "measure (\<lambda>(node, word, index, sz). length word - index)") auto

declare deleteRecursive.simps [simp del]

text \<open>
  \<open>Delete\<close> returns the flag of \<open>deleteRecursive\<close> on the root; the model returns it
  with the trie after the call.
\<close>

definition Delete_trie :: "'v Trie \<Rightarrow> string \<Rightarrow> panic + (bool \<times> 'v Trie)" where
  "Delete_trie t word =
     (case deleteRecursive (Some (root_trie t)) word 0 (size_trie t) of
        Inl p \<Rightarrow> Inl p
      | Inr (flag, node, sz) \<Rightarrow>
          Inr (flag, \<lparr>root_trie = (case node of None \<Rightarrow> root_trie t | Some r \<Rightarrow> r),
                      size_trie = sz\<rparr>))"

text \<open>
  Auxiliary notions: a word without a byte above \<open>0x7F\<close>, and whether the path
  \<open>path\<close> from \<open>node\<close> exists and ends at a node marked as the end of a word.
\<close>

definition ascii_word :: "string \<Rightarrow> bool" where
  "ascii_word word \<longleftrightarrow> (\<forall>c \<in> set word. (of_char c :: nat) < 0x80)"

definition ends_word :: "'v TrieNode \<Rightarrow> rune list \<Rightarrow> bool" where
  "ends_word node path = (case searchPath node path of None \<Rightarrow> False | Some n \<Rightarrow> isEnd n)"

section \<open>Set (stl/set.go)\<close>

text \<open>
  \<open>Set[T]\<close> wraps a Go map from elements to the empty struct: a finite set.
  \<open>Size\<close> is the number of keys.
\<close>

type_synonym 'a Set = "'a set"

definition NewSet :: "'a Set" where
  "NewSet = {}"

definition Add :: "'a Set \<Rightarrow> 'a \<Rightarrow> 'a Set" where
  "Add s element = insert element s"

definition NewSetFromSlice :: "'a list \<Rightarrow> 'a Set" where
  "NewSetFromSlice slice = fold (\<lambda>item s. Add s item) slice NewSet"

definition Contains :: "'a Set \<Rightarrow> 'a \<Rightarrow> bool" where
  "Contains s element \<longleftrightarrow> element \<in> s"

definition Size_set :: "'a Set \<Rightarrow> int" where
  "Size_set s = int (card s)"

definition IsSubset :: "'a Set \<Rightarrow> 'a Set \<Rightarrow> bool" where
  "IsSubset s other \<longleftrightarrow> (\<forall>element \<in> s. Contains other element)"

definition Equals_set :: "'a Set \<Rightarrow> 'a Set \<Rightarrow> bool" where
  "Equals_set s other = (if Size_set s \<noteq> Size_set other then False else IsSubset s other)"

section \<open>Graph (stl/graph.go)\<close>

text \<open>
  \<open>adjacency\<close> is a Go map from a node to the slice of its neighbours: an association
  list with one entry per key (\<open>wf_graph\<close>). Lookup is \<open>map_of\<close>, assignment is
  \<open>AList.update\<close>, \<open>delete\<close> is \<open>AList.delete\<close>, \<open>len\<close> is the length of the list.

  Go does not fix the order in which \<open>range\<close> visits the keys of a map, and two loops
  over the same map may see different orders. Every function whose result can depend on
  that order takes it as an argument, a list that enumerates the keys (\<open>enumerates\<close>).
\<close>

record 'a Graph =
  adjacency :: "('a \<times> 'a list) list"
  directed :: bool

definition wf_graph :: "'a Graph \<Rightarrow> bool" where
  "wf_graph g \<longleftrightarrow> distinct (map fst (adjacency g))"

definition nodes :: "'a Graph \<Rightarrow> 'a set" where
  "nodes g = fst ` set (adjacency g)"

definition enumerates :: "'a Graph \<Rightarrow> 'a list \<Rightarrow> bool" where
  "enumerates g order \<longleftrightarrow> distinct order \<and> set order = nodes g"

definition NewGraph :: "bool \<Rightarrow> 'a Graph" where
  "NewGraph d = \<lparr>adjacency = [], directed = d\<rparr>"

definition AddNode :: "'a Graph \<Rightarrow> 'a \<Rightarrow> 'a Graph" where
  "AddNode g node =
     (if map_of (adjacency g) node = None
      then g\<lparr>adjacency := AList.update node [] (adjacency g)\<rparr>
      else g)"

text \<open>Reading \<open>g.adjacency[k]\<close>: the nil slice for a missing key.\<close>

definition adjacency_at :: "'a Graph \<Rightarrow> 'a \<Rightarrow> 'a list" where
  "adjacency_at g k = (case map_of (adjacency g) k of None \<Rightarrow> [] | Some neighbors \<Rightarrow> neighbors)"

definition AddEdge :: "'a Graph \<Rightarrow> 'a \<Rightarrow> 'a \<Rightarrow> 'a Graph" where
  "AddEdge g from to =
     (let g1 = AddNode g from;
          g2 = AddNode g1 to;
          g3 = g2\<lparr>adjacency := AList.update from (adjacency_at g2 from @ [to]) (adjacency g2)\<rparr>
      in if \<not> directed g3
         then g3\<lparr>adjacency := AList.update to (adjacency_at g3 to @ [from]) (adjacency g3)\<rparr>
         else g3)"

definition NewGraphFromEdges :: "('a \<times> 'a) list \<Rightarrow> bool \<Rightarrow> 'a Graph" where
  "NewGraphFromEdges edges d = fold (\<lambda>edge g. AddEdge g (fst edge) (snd edge)) edges (NewGraph d)"

text \<open>
  One half of \<open>RemoveEdge\<close>: the loop removes the first occurrence of \<open>to\<close> from the
  list of \<open>from\<close> and stops (\<open>remove1\<close>); nothing happens when \<open>from\<close> is not a key.
\<close>

definition removeFirst :: "'a Graph \<Rightarrow> 'a \<Rightarrow> 'a \<Rightarrow> 'a Graph" where
  "removeFirst g from to =
     (case map_of (adjacency g) from of
        Some neighbors \<Rightarrow> g\<lparr>adjacency := AList.update from (remove1 to neighbors) (adjacency g)\<rparr>
      | None \<Rightarrow> g)"

definition RemoveEdge :: "'a Graph \<Rightarrow> 'a \<Rightarrow> 'a \<Rightarrow> 'a Graph" where
  "RemoveEdge g from to =
     (let g1 = removeFirst g from to
      in if \<not> directed g1 then removeFirst g1 to from else g1)"

text \<open>\<open>RemoveNode\<close> ranges over the keys in the order \<open>order\<close>.\<close>

definition RemoveNode :: "'a list \<Rightarrow> 'a Graph \<Rightarrow> 'a \<Rightarrow> 'a Graph" where
  "RemoveNode order g node =
     (let g1 = fold (\<lambda>from g'. RemoveEdge g' from node) order g
      in g1\<lparr>adjacency := AList.delete node (adjacency g1)\<rparr>)"

definition HasNode :: "'a Graph \<Rightarrow> 'a \<Rightarrow> bool" where
  "HasNode g node = (map_of (adjacency g) node \<noteq> None)"

definition HasEdge :: "'a Graph \<Rightarrow> 'a \<Rightarrow> 'a \<Rightarrow> bool" where
  "HasEdge g from to =
     (case map_of (adjacency g) from of
        Some neighbors \<Rightarrow> to \<in> set neighbors
      | None \<Rightarrow> False)"

definition GetNeighbors :: "'a Graph \<Rightarrow> 'a \<Rightarrow> 'a list" where
  "GetNeighbors g node =
     (case map_of (adjacency g) node of Some neighbors \<Rightarrow> neighbors | None \<Rightarrow> [])"

definition NodeCount :: "'a Graph \<Rightarrow> int" where
  "NodeCount g = int (length (adjacency g))"

text \<open>
  The undirected graphs made from an empty one by \<open>AddNode\<close>, \<open>AddEdge\<close> and
  \<open>RemoveEdge\<close>, and the symmetry of the adjacency lists with multiplicities: \<open>v\<close>
  occurs in the list of \<open>u\<close> as often as \<open>u\<close> in the list of \<open>v\<close>.
\<close>

definition symmetric_adjacency :: "'a Graph \<Rightarrow> bool" where
  "symmetric_adjacency g \<longleftrightarrow>
     (\<forall>u v. count_list (adjacency_at g u) v = count_list (adjacency_at g v) u)"

inductive edited :: "'a Graph \<Rightarrow> bool" where
  new: "edited (NewGraph False)"
| add_node: "edited g \<Longrightarrow> edited (AddNode g node)"
| add_edge: "edited g \<Longrightarrow> edited (AddEdge g u v)"
| remove_edge: "edited g \<Longrightarrow> edited (RemoveEdge g u v)"

subsection \<open>Breadth-first search\<close>

text \<open>
  The inner loop of \<open>BFS\<close> marks and enqueues the neighbours that are not visited yet.
  \<open>visited\<close> is a \<open>map[T]bool\<close> that only ever stores \<open>true\<close>: the set of its keys.
\<close>

definition bfsEnqueue :: "'a list \<Rightarrow> 'a set \<times> 'a list \<Rightarrow> 'a set \<times> 'a list" where
  "bfsEnqueue neighbors st =
     fold (\<lambda>neighbor (visited, queue).
             if neighbor \<notin> visited then (insert neighbor visited, queue @ [neighbor])
             else (visited, queue))
          neighbors st"

partial_function (option) bfsLoop ::
  "'a Graph \<Rightarrow> 'a list \<Rightarrow> 'a set \<Rightarrow> 'a list \<Rightarrow> 'a list option"
where
  "bfsLoop g queue visited result =
     (case queue of
        [] \<Rightarrow> Some result
      | node # queue' \<Rightarrow>
          (case bfsEnqueue (GetNeighbors g node) (visited, queue') of
             (visited', queue'') \<Rightarrow> bfsLoop g queue'' visited' (result @ [node])))"

definition BFS :: "'a Graph \<Rightarrow> 'a \<Rightarrow> 'a list option" where
  "BFS g start = bfsLoop g [start] {start} []"

subsection \<open>Depth-first traversals\<close>

text \<open>
  The recursive traversals call themselves from inside a loop over the neighbours, with
  the \<open>visited\<close> map shared between the calls. Each is a pair of mutually recursive
  functions: the method, and its loop from a given position in the neighbour list on.
  They terminate because every call on an unvisited node adds it to \<open>visited\<close>, and
  all nodes that can be reached are mentioned in the finite adjacency map.
\<close>

definition mentioned :: "'a Graph \<Rightarrow> 'a set" where
  "mentioned g = fst ` set (adjacency g) \<union> (\<Union>ns \<in> snd ` set (adjacency g). set ns)"

definition unvisited :: "'a Graph \<Rightarrow> 'a set \<Rightarrow> 'a set \<Rightarrow> nat" where
  "unvisited g extra visited = card ((mentioned g \<union> extra) - visited)"

lemma finite_mentioned: "finite (mentioned g)"
  by (simp add: mentioned_def)

lemma GetNeighbors_mentioned: "set (GetNeighbors g node) \<subseteq> mentioned g"
proof
  fix x assume "x \<in> set (GetNeighbors g node)"
  then obtain ns where "map_of (adjacency g) node = Some ns" "x \<in> set ns"
    by (cases "map_of (adjacency g) node") (auto simp: GetNeighbors_def)
  then have "(node, ns) \<in> set (adjacency g)" by (simp add: map_of_SomeD)
  then have "ns \<in> snd ` set (adjacency g)" by force
  with \<open>x \<in> set ns\<close> show "x \<in> mentioned g" unfolding mentioned_def by blast
qed

lemma unvisited_enter:
  "unvisited g (set (GetNeighbors g node)) (insert node visited)
     < unvisited g {node} visited + (if node \<in> visited then 1 else 0)"
proof -
  have eq: "mentioned g \<union> set (GetNeighbors g node) = mentioned g"
    using GetNeighbors_mentioned[of g node] by auto
  have lhs: "unvisited g (set (GetNeighbors g node)) (insert node visited)
      = card (mentioned g - insert node visited)"
    unfolding unvisited_def eq ..
  show ?thesis
  proof (cases "node \<in> visited")
    case True
    have "mentioned g \<union> {node} - visited = mentioned g - insert node visited"
      using True by auto
    then have "unvisited g {node} visited = card (mentioned g - insert node visited)"
      unfolding unvisited_def by (rule arg_cong)
    with lhs True show ?thesis by simp
  next
    case False
    have "mentioned g \<union> {node} - visited = insert node (mentioned g - insert node visited)"
      using False by auto
    then have "unvisited g {node} visited = card (insert node (mentioned g - insert node visited))"
      unfolding unvisited_def by (rule arg_cong)
    also have "\<dots> = Suc (card (mentioned g - insert node visited))"
      by (rule card_insert_disjoint) (auto simp: finite_mentioned)
    finally show ?thesis using lhs by simp
  qed
qed

lemma unvisited_mono:
  "finite extra \<Longrightarrow> extra' \<subseteq> extra \<Longrightarrow> visited \<subseteq> visited' \<Longrightarrow>
     unvisited g extra' visited' \<le> unvisited g extra visited"
  unfolding unvisited_def
  by (rule card_mono) (auto simp: finite_mentioned)

lemma unvisited_step:
  "visited \<subseteq> visited' \<Longrightarrow>
     unvisited g (set rest) visited' < unvisited g (set (neighbor # rest)) visited
     \<or> unvisited g (set rest) visited' = unvisited g (set (neighbor # rest)) visited"
proof -
  assume "visited \<subseteq> visited'"
  then have "unvisited g (set rest) visited' \<le> unvisited g (set (neighbor # rest)) visited"
    by (intro unvisited_mono) auto
  then show ?thesis by arith
qed

lemma unvisited_call:
  "unvisited g {neighbor} visited < unvisited g (set (neighbor # rest)) visited
     \<or> unvisited g {neighbor} visited = unvisited g (set (neighbor # rest)) visited"
proof -
  have "unvisited g {neighbor} visited \<le> unvisited g (set (neighbor # rest)) visited"
    by (rule unvisited_mono) auto
  then show ?thesis by arith
qed

text \<open>\<open>dfsRecursive\<close> and the loop over the neighbours in its body.\<close>

function dfsRecursive :: "'a Graph \<Rightarrow> 'a \<Rightarrow> 'a set \<times> 'a list \<Rightarrow> 'a set \<times> 'a list"
  and dfsNeighbors :: "'a Graph \<Rightarrow> 'a list \<Rightarrow> 'a set \<times> 'a list \<Rightarrow> 'a set \<times> 'a list"
where
  "dfsRecursive g node (visited, result) =
     dfsNeighbors g (GetNeighbors g node) (insert node visited, result @ [node])"
| "dfsNeighbors g [] st = st"
| "dfsNeighbors g (neighbor # rest) (visited, result) =
     (if neighbor \<notin> visited
      then dfsNeighbors g rest (dfsRecursive g neighbor (visited, result))
      else dfsNeighbors g rest (visited, result))"
  by pat_completeness auto

termination
proof -
  have dfs_visited_mono:
    "dfsRecursive_dfsNeighbors_dom (Inl (g, node, st)) \<Longrightarrow> fst st \<subseteq> fst (dfsRecursive g node st)"
    "dfsRecursive_dfsNeighbors_dom (Inr (g, ns, st)) \<Longrightarrow> fst st \<subseteq> fst (dfsNeighbors g ns st)"
    for g node st ns
  proof (induction g node st and g ns st rule: dfsRecursive_dfsNeighbors.pinduct)
    case (1 g node visited result)
    then show ?case by (simp add: dfsRecursive.psimps)
  next
    case (2 g st)
    then show ?case by (simp add: dfsNeighbors.psimps)
  next
    case (3 g neighbor rest visited result)
    then show ?case
      by (auto simp: dfsNeighbors.psimps split: if_splits)
  qed
  show ?thesis
  proof (relation "measures
      [\<lambda>x. case x of
             Inl (g, node, visited, result) \<Rightarrow>
               unvisited g {node} visited + (if node \<in> visited then 1 else 0)
           | Inr (g, ns, visited, result) \<Rightarrow> unvisited g (set ns) visited,
       \<lambda>x. case x of Inl _ \<Rightarrow> 0 | Inr (g, ns, st) \<Rightarrow> Suc (length ns)]", goal_cases)
    case 1
    show ?case by simp
  next
    case (2 g node visited result)
    show ?case using unvisited_enter[of g node visited] by simp
  next
    case (3 g neighbor rest visited result)
    with unvisited_call[of g neighbor visited rest] show ?case by simp
  next
    case (4 g neighbor rest visited result)
    obtain v' r' where res: "dfsRecursive g neighbor (visited, result) = (v', r')" by fastforce
    have "visited \<subseteq> v'" using dfs_visited_mono(1)[OF 4(2)] res by simp
    from unvisited_step[OF this, of g rest neighbor] res show ?case by simp
  next
    case (5 g neighbor rest visited result)
    from unvisited_step[OF subset_refl, of g rest visited neighbor] show ?case by simp
  qed
qed

definition DFS :: "'a Graph \<Rightarrow> 'a \<Rightarrow> 'a list" where
  "DFS g start = snd (dfsRecursive g start ({}, []))"

text \<open>
  \<open>hasCycleDFS\<close> returns its verdict together with the two maps it has modified, since
  its callers go on using them. The loop carries the node of the enclosing call, whose
  mark on the recursion stack is cleared after the last neighbour.
\<close>

function hasCycleDFS :: "'a Graph \<Rightarrow> 'a \<Rightarrow> 'a set \<times> 'a set \<Rightarrow> bool \<times> 'a set \<times> 'a set"
  and hasCycleNeighbors ::
    "'a Graph \<Rightarrow> 'a \<Rightarrow> 'a list \<Rightarrow> 'a set \<times> 'a set \<Rightarrow> bool \<times> 'a set \<times> 'a set"
where
  "hasCycleDFS g node (visited, recStack) =
     hasCycleNeighbors g node (GetNeighbors g node) (insert node visited, insert node recStack)"
| "hasCycleNeighbors g node [] (visited, recStack) = (False, visited, recStack - {node})"
| "hasCycleNeighbors g node (neighbor # rest) (visited, recStack) =
     (if neighbor \<notin> visited then
        (let r = hasCycleDFS g neighbor (visited, recStack)
         in if fst r then (True, snd r) else hasCycleNeighbors g node rest (snd r))
      else if neighbor \<in> recStack then (True, visited, recStack)
      else hasCycleNeighbors g node rest (visited, recStack))"
  by pat_completeness auto

termination
proof -
  have hasCycle_visited_mono:
    "hasCycleDFS_hasCycleNeighbors_dom (Inl (g, node, st)) \<Longrightarrow>
       fst st \<subseteq> fst (snd (hasCycleDFS g node st))"
    "hasCycleDFS_hasCycleNeighbors_dom (Inr (g, node, ns, st)) \<Longrightarrow>
       fst st \<subseteq> fst (snd (hasCycleNeighbors g node ns st))"
    for g node st ns
  proof (induction g node st and g node ns st rule: hasCycleDFS_hasCycleNeighbors.pinduct)
    case (1 g node visited recStack)
    then show ?case by (simp add: hasCycleDFS.psimps)
  next
    case (2 g node visited recStack)
    then show ?case by (simp add: hasCycleNeighbors.psimps)
  next
    case (3 g node neighbor rest visited recStack)
    note dom = "3.hyps"
    let ?r = "hasCycleDFS g neighbor (visited, recStack)"
    show ?case
    proof (cases "neighbor \<notin> visited")
      case True
      have a: "visited \<subseteq> fst (snd ?r)" using "3.IH"(1)[OF True] by simp
      show ?thesis
      proof (cases "fst ?r")
        case found: True
        with True a show ?thesis by (simp add: hasCycleNeighbors.psimps(2)[OF dom] Let_def)
      next
        case False
        have "fst (snd ?r) \<subseteq> fst (snd (hasCycleNeighbors g node rest (snd ?r)))"
          using "3.IH"(2)[OF True refl False] by (cases "snd ?r") auto
        with True False a show ?thesis
          by (auto simp: hasCycleNeighbors.psimps(2)[OF dom] Let_def)
      qed
    next
      case False
      with "3.IH"(3) show ?thesis
        by (auto simp: hasCycleNeighbors.psimps(2)[OF dom] Let_def)
    qed
  qed
  show ?thesis
  proof (relation "measures
      [\<lambda>x. case x of
             Inl (g, node, visited, recStack) \<Rightarrow>
               unvisited g {node} visited + (if node \<in> visited then 1 else 0)
           | Inr (g, node, ns, visited, recStack) \<Rightarrow> unvisited g (set ns) visited,
       \<lambda>x. case x of Inl _ \<Rightarrow> 0 | Inr (g, node, ns, st) \<Rightarrow> Suc (length ns)]", goal_cases)
    case 1
    show ?case by simp
  next
    case (2 g node visited recStack)
    show ?case using unvisited_enter[of g node visited] by simp
  next
    case (3 g node neighbor rest visited recStack)
    with unvisited_call[of g neighbor visited rest] show ?case by simp
  next
    case (4 g node neighbor rest visited recStack r)
    obtain b v' s' where res: "hasCycleDFS g neighbor (visited, recStack) = (b, v', s')"
      by (cases "hasCycleDFS g neighbor (visited, recStack)") auto
    have "visited \<subseteq> v'" using hasCycle_visited_mono(1)[OF 4(4)] res by simp
    from unvisited_step[OF this, of g rest neighbor] res 4(2) show ?case by simp
  next
    case (5 g node neighbor rest visited recStack)
    from unvisited_step[OF subset_refl, of g rest visited neighbor] show ?case by simp
  qed
qed

text \<open>The loop of \<open>HasCycle\<close> over the keys, in the order \<open>order\<close>.\<close>

fun hasCycleLoop :: "'a Graph \<Rightarrow> 'a list \<Rightarrow> 'a set \<times> 'a set \<Rightarrow> bool" where
  "hasCycleLoop g [] st = False"
| "hasCycleLoop g (node # rest) (visited, recStack) =
     (if node \<notin> visited then
        (let r = hasCycleDFS g node (visited, recStack)
         in if fst r then True else hasCycleLoop g rest (snd r))
      else hasCycleLoop g rest (visited, recStack))"

definition HasCycle :: "'a list \<Rightarrow> 'a Graph \<Rightarrow> bool" where
  "HasCycle order g = hasCycleLoop g order ({}, {})"

text \<open>
  \<open>topologicalSortDFS\<close> appends the node after the loop over its neighbours.
\<close>

function topologicalSortDFS :: "'a Graph \<Rightarrow> 'a \<Rightarrow> 'a set \<times> 'a list \<Rightarrow> 'a set \<times> 'a list"
  and topologicalSortNeighbors ::
    "'a Graph \<Rightarrow> 'a \<Rightarrow> 'a list \<Rightarrow> 'a set \<times> 'a list \<Rightarrow> 'a set \<times> 'a list"
where
  "topologicalSortDFS g node (visited, result) =
     topologicalSortNeighbors g node (GetNeighbors g node) (insert node visited, result)"
| "topologicalSortNeighbors g node [] (visited, result) = (visited, result @ [node])"
| "topologicalSortNeighbors g node (neighbor # rest) (visited, result) =
     (if neighbor \<notin> visited
      then topologicalSortNeighbors g node rest (topologicalSortDFS g neighbor (visited, result))
      else topologicalSortNeighbors g node rest (visited, result))"
  by pat_completeness auto

termination
proof -
  have topologicalSort_visited_mono:
    "topologicalSortDFS_topologicalSortNeighbors_dom (Inl (g, node, st)) \<Longrightarrow>
       fst st \<subseteq> fst (topologicalSortDFS g node st)"
    "topologicalSortDFS_topologicalSortNeighbors_dom (Inr (g, node, ns, st)) \<Longrightarrow>
       fst st \<subseteq> fst (topologicalSortNeighbors g node ns st)"
    for g node st ns
  proof (induction g node st and g node ns st
      rule: topologicalSortDFS_topologicalSortNeighbors.pinduct)
    case (1 g node visited result)
    then show ?case by (simp add: topologicalSortDFS.psimps)
  next
    case (2 g node visited result)
    then show ?case by (simp add: topologicalSortNeighbors.psimps)
  next
    case (3 g node neighbor rest visited result)
    then show ?case
      by (auto simp: topologicalSortNeighbors.psimps split: if_splits)
  qed
  show ?thesis
  proof (relation "measures
      [\<lambda>x. case x of
             Inl (g, node, visited, result) \<Rightarrow>
               unvisited g {node} visited + (if node \<in> visited then 1 else 0)
           | Inr (g, node, ns, visited, result) \<Rightarrow> unvisited g (set ns) visited,
       \<lambda>x. case x of Inl _ \<Rightarrow> 0 | Inr (g, node, ns, st) \<Rightarrow> Suc (length ns)]", goal_cases)
    case 1
    show ?case by simp
  next
    case (2 g node visited result)
    show ?case using unvisited_enter[of g node visited] by simp
  next
    case (3 g node neighbor rest visited result)
    with unvisited_call[of g neighbor visited rest] show ?case by simp
  next
    case (4 g node neighbor rest visited result)
    obtain v' r' where res: "topologicalSortDFS g neighbor (visited, result) = (v', r')"
      by fastforce
    have "visited \<subseteq> v'" using topologicalSort_visited_mono(1)[OF 4(2)] res by simp
    from unvisited_step[OF this, of g rest neighbor] res show ?case by simp
  next
    case (5 g node neighbor rest visited result)
    from unvisited_step[OF subset_refl, of g rest visited neighbor] show ?case by simp
  qed
qed

text \<open>The loop of \<open>TopologicalSort\<close> over the keys, in the order \<open>order\<close>.\<close>

fun topologicalSortLoop :: "'a Graph \<Rightarrow> 'a list \<Rightarrow> 'a set \<times> 'a list \<Rightarrow> 'a set \<times> 'a list" where
  "topologicalSortLoop g [] st = st"
| "topologicalSortLoop g (node # rest) (visited, result) =
     (if node \<notin> visited
      then topologicalSortLoop g rest (topologicalSortDFS g node (visited, result))
      else topologicalSortLoop g rest (visited, result))"

text \<open>
  The reversal loop swaps \<open>result[i]\<close> and \<open>result[j]\<close> while \<open>i < j\<close>; an index
  outside the slice panics.
\<close>

function reverseLoop :: "'a list \<Rightarrow> int \<Rightarrow> int \<Rightarrow> panic + 'a list" where
  "reverseLoop result i j =
     (if i < j then
        (if 0 \<le> i \<and> j < int (length result)
         then reverseLoop (result[nat i := result ! nat j, nat j := result ! nat i]) (i + 1) (j - 1)
         else Inl IndexOutOfRange)
      else Inr result)"
  by pat_completeness auto
termination
  by (relation "measure (\<lambda>(result, i, j). nat (j - i))") auto

declare reverseLoop.simps [simp del]

text \<open>
  \<open>TopologicalSort\<close> returns \<open>(nil, false)\<close>, modelled as \<open>([], False)\<close>, or the order
  and \<open>true\<close>. The loop inside \<open>HasCycle\<close> sees the keys in the order \<open>order1\<close>, the
  loop of \<open>TopologicalSort\<close> itself in the order \<open>order2\<close>.
\<close>

definition TopologicalSort :: "'a list \<Rightarrow> 'a list \<Rightarrow> 'a Graph \<Rightarrow> panic + ('a list \<times> bool)" where
  "TopologicalSort order1 order2 g =
     (if \<not> directed g then Inr ([], False)
      else if HasCycle order1 g then Inr ([], False)
      else
        (let result = snd (topologicalSortLoop g order2 ({}, []))
         in case reverseLoop result 0 (int (length result) - 1) of
              Inl p \<Rightarrow> Inl p
            | Inr reversed \<Rightarrow> Inr (reversed, True)))"

subsection \<open>Shortest path\<close>

text \<open>
  \<open>parent[current]\<close> reads a Go map: a missing key yields the zero value of \<open>T\<close>, which
  the model takes as the argument \<open>zero\<close>. The search loop and the loop that follows the
  parent links are modelled in the \<open>option\<close> monad: \<open>None\<close> stands for a loop that does
  not return.
\<close>

definition spEnqueue ::
  "'a \<Rightarrow> 'a list \<Rightarrow> 'a set \<times> ('a \<rightharpoonup> 'a) \<times> 'a list \<Rightarrow> 'a set \<times> ('a \<rightharpoonup> 'a) \<times> 'a list"
where
  "spEnqueue node neighbors st =
     fold (\<lambda>neighbor (visited, parent, queue).
             if neighbor \<notin> visited
             then (insert neighbor visited, parent(neighbor \<mapsto> node), queue @ [neighbor])
             else (visited, parent, queue))
          neighbors st"

partial_function (option) reconstructPath ::
  "'a \<Rightarrow> ('a \<rightharpoonup> 'a) \<Rightarrow> 'a \<Rightarrow> 'a \<Rightarrow> 'a list \<Rightarrow> 'a list option"
where
  "reconstructPath zero parent start current path =
     (if current \<noteq> start
      then reconstructPath zero parent start
             (case parent current of None \<Rightarrow> zero | Some p \<Rightarrow> p) (current # path)
      else Some (start # path))"

partial_function (option) shortestPathLoop ::
  "'a \<Rightarrow> 'a Graph \<Rightarrow> 'a \<Rightarrow> 'a \<Rightarrow> 'a list \<Rightarrow> 'a set \<Rightarrow> ('a \<rightharpoonup> 'a) \<Rightarrow> ('a list \<times> bool) option"
where
  "shortestPathLoop zero g start endNode queue visited parent =
     (case queue of
        [] \<Rightarrow> Some ([], False)
      | node # queue' \<Rightarrow>
          if node = endNode then
            (case reconstructPath zero parent start endNode [] of
               None \<Rightarrow> None
             | Some path \<Rightarrow> Some (path, True))
          else
            (case spEnqueue node (GetNeighbors g node) (visited, parent, queue') of
               (visited', parent', queue'') \<Rightarrow>
                 shortestPathLoop zero g start endNode queue'' visited' parent'))"

definition ShortestPath :: "'a \<Rightarrow> 'a Graph \<Rightarrow> 'a \<Rightarrow> 'a \<Rightarrow> ('a list \<times> bool) option" where
  "ShortestPath zero g start endNode =
     (if \<not> HasNode g start \<or> \<not> HasNode g endNode then Some ([], False)
      else shortestPathLoop zero g start endNode [start] {start} Map.empty)"

subsection \<open>Equality of graphs\<close>

text \<open>
  The loop of \<open>Equals\<close> returns false at the first entry that fails and true after the
  last one, so its result does not depend on the order of the entries.
\<close>

definition Equals :: "'a Graph \<Rightarrow> 'a Graph \<Rightarrow> bool" where
  "Equals g other =
     (if directed g \<noteq> directed other then False
      else if length (adjacency g) \<noteq> length (adjacency other) then False
      else list_all
             (\<lambda>(node, neighbors).
                case map_of (adjacency other) node of
                  None \<Rightarrow> False
                | Some otherNeighbors \<Rightarrow>
                    if length neighbors \<noteq> length otherNeighbors then False
                    else Equals_set (NewSetFromSlice neighbors) (NewSetFromSlice otherNeighbors))
             (adjacency g))"

text \<open>The edges of a graph as a relation, for stating what acyclic means.\<close>

definition edges :: "'a Graph \<Rightarrow> ('a \<times> 'a) set" where
  "edges g = {(u, v). HasEdge g u v}"

text \<open>\<open>u\<close> occurs in \<open>xs\<close> at an earlier position than \<open>v\<close>.\<close>

definition precedes :: "'a \<Rightarrow> 'a \<Rightarrow> 'a list \<Rightarrow> bool" where
  "precedes u v xs \<longleftrightarrow> (\<exists>i j. i < j \<and> j < length xs \<and> xs ! i = u \<and> xs ! j = v)"

text \<open>
  Auxiliary notions for the depth-first traversal of \<open>TopologicalSort\<close>.
  \<open>finishes g xs\<close>: every neighbour of an element of \<open>xs\<close> occurs later in \<open>xs\<close>.
  The state of the traversal is the pair of \<open>visited\<close> and \<open>result\<close>; its invariant
  says that the finished nodes are visited, occur once, and that the reversed result
  satisfies \<open>finishes\<close>. The gray nodes are visited but not finished: the nodes of the
  calls in progress.
\<close>

fun finishes :: "'a Graph \<Rightarrow> 'a list \<Rightarrow> bool" where
  "finishes g [] = True"
| "finishes g (u # xs) = (set (GetNeighbors g u) \<subseteq> set xs \<and> finishes g xs)"

definition topo_inv :: "'a Graph \<Rightarrow> 'a set \<times> 'a list \<Rightarrow> bool" where
  "topo_inv g st \<longleftrightarrow>
     set (snd st) \<subseteq> fst st \<and> distinct (snd st) \<and> finishes g (rev (snd st))"

definition gray :: "'a set \<times> 'a list \<Rightarrow> 'a set" where
  "gray st = fst st - set (snd st)"

section \<open>Properties of the binary search tree\<close>

subsection \<open>In-order traversal and insertion\<close>

lemma inOrderRecursive_append:
  "inOrderRecursive n acc = acc @ inOrderRecursive n []"
proof (induction n arbitrary: acc)
  case BSTNil
  show ?case by simp
next
  case (BSTNode v l r)
  have "inOrderRecursive (BSTNode v l r) acc = inOrderRecursive r (inOrderRecursive l acc @ [v])"
    by simp
  also have "\<dots> = (inOrderRecursive l acc @ [v]) @ inOrderRecursive r []"
    using BSTNode.IH(2) by blast
  also have "\<dots> = acc @ (inOrderRecursive l [] @ [v]) @ inOrderRecursive r []"
    using BSTNode.IH(1)[of acc] by simp
  also have "(inOrderRecursive l [] @ [v]) @ inOrderRecursive r [] = inOrderRecursive (BSTNode v l r) []"
    using BSTNode.IH(2)[of "inOrderRecursive l [] @ [v]"] by simp
  finally show ?case .
qed

lemma inOrder_node:
  "inOrderRecursive (BSTNode v l r) [] = inOrderRecursive l [] @ v # inOrderRecursive r []"
  using inOrderRecursive_append[of r "inOrderRecursive l [] @ [v]"] by simp

lemma set_inOrder: "set (inOrderRecursive n []) = set_BSTNode n"
  by (induction n) (auto simp: inOrder_node simp del: inOrderRecursive.simps(2))

lemma length_inOrder: "int (length (inOrderRecursive n [])) = sizeOf n"
  by (induction n) (auto simp: inOrder_node simp del: inOrderRecursive.simps(2))

lemma sorted_inOrder:
  assumes "strict_total_order lessf" "ordered lessf n"
  shows "sorted_wrt lessf (inOrderRecursive n [])"
  using assms(2)
proof (induction n)
  case BSTNil
  show ?case by simp
next
  case (BSTNode v l r)
  have tr: "\<And>a b c. lessf a b \<Longrightarrow> lessf b c \<Longrightarrow> lessf a c"
    using assms(1) unfolding strict_total_order_def by blast
  from BSTNode show ?case
    by (auto simp: inOrder_node sorted_wrt_append set_inOrder simp del: inOrderRecursive.simps(2) intro: tr)
qed

lemma insertRecursive_Less: "insertRecursive bst n x = (n', bst') \<Longrightarrow> Less bst' = Less bst"
  by (induction n arbitrary: n' bst') (auto split: if_splits prod.splits)

lemma insertRecursive_set:
  "insertRecursive bst n x = (n', bst') \<Longrightarrow> set_BSTNode n' = insert x (set_BSTNode n) \<or> set_BSTNode n' = set_BSTNode n"
  by (induction n arbitrary: n' bst') (fastforce split: if_splits prod.splits)+

lemma insertRecursive_subset:
  "insertRecursive bst n x = (n', bst') \<Longrightarrow> set_BSTNode n' \<subseteq> insert x (set_BSTNode n)"
  using insertRecursive_set by fastforce

lemma insertRecursive_ordered:
  assumes "strict_total_order (Less bst)"
  shows "ordered (Less bst) n \<Longrightarrow> insertRecursive bst n x = (n', bst') \<Longrightarrow> ordered (Less bst) n'"
proof (induction n arbitrary: n' bst')
  case BSTNil
  then show ?case by auto
next
  case (BSTNode v l r)
  show ?case
  proof (cases "Less bst x v")
    case True
    obtain l' b' where ins: "insertRecursive bst l x = (l', b')" by fastforce
    with True BSTNode.prems have n': "n' = BSTNode v l' r" by simp
    have "ordered (Less bst) l'" using BSTNode.IH(1)[OF _ ins] BSTNode.prems(1) by simp
    moreover have "\<forall>y \<in> set_BSTNode l'. Less bst y v"
      using insertRecursive_subset[OF ins] True BSTNode.prems(1) by auto
    ultimately show ?thesis using n' BSTNode.prems(1) by simp
  next
    case False
    show ?thesis
    proof (cases "Less bst v x")
      case True
      obtain r' b' where ins: "insertRecursive bst r x = (r', b')" by fastforce
      with True False BSTNode.prems have n': "n' = BSTNode v l r'" by simp
      have "ordered (Less bst) r'" using BSTNode.IH(2)[OF _ ins] BSTNode.prems(1) by simp
      moreover have "\<forall>y \<in> set_BSTNode r'. Less bst v y"
        using insertRecursive_subset[OF ins] True BSTNode.prems(1) by auto
      ultimately show ?thesis using n' BSTNode.prems(1) by simp
    next
      case F2: False
      with False BSTNode.prems show ?thesis by auto
    qed
  qed
qed

lemma insertRecursive_Size:
  "insertRecursive bst n x = (n', bst') \<Longrightarrow> Size bst' - sizeOf n' = Size bst - sizeOf n"
  by (induction n arbitrary: n' bst') (auto split: if_splits prod.splits)

lemma Insert_Less: "Less (Insert bst x) = Less bst"
  by (auto simp: Insert_def split: prod.splits dest: insertRecursive_Less)

lemma Insert_inv:
  assumes "strict_total_order (Less bst)" "bst_inv bst"
  shows "bst_inv (Insert bst x)"
proof -
  obtain n' b' where ins: "insertRecursive bst (Root bst) x = (n', b')" by fastforce
  have "ordered (Less bst) n'"
    using insertRecursive_ordered[OF assms(1) _ ins] assms(2) by (simp add: bst_inv_def)
  moreover have "Size b' = sizeOf n'"
    using insertRecursive_Size[OF ins] assms(2) by (simp add: bst_inv_def)
  moreover have "Less b' = Less bst" using insertRecursive_Less[OF ins] .
  ultimately show ?thesis by (simp add: bst_inv_def Insert_def ins)
qed

lemma NewBST_inv: "bst_inv (NewBST lessf)"
  by (simp add: bst_inv_def NewBST_def)

lemma fold_Insert_inv:
  "strict_total_order (Less bst) \<Longrightarrow> bst_inv bst \<Longrightarrow>
     bst_inv (fold (\<lambda>v b. Insert b v) vs bst) \<and> Less (fold (\<lambda>v b. Insert b v) vs bst) = Less bst"
proof (induction vs arbitrary: bst)
  case Nil
  then show ?case by simp
next
  case (Cons a vs)
  have "strict_total_order (Less (Insert bst a))" using Cons.prems(1) by (simp add: Insert_Less)
  from Cons.IH[OF this Insert_inv[OF Cons.prems]] show ?case by (simp add: Insert_Less)
qed

lemma bst_inv_InOrder:
  assumes "strict_total_order (Less bst)" "bst_inv bst"
  shows "sorted_wrt (Less bst) (InOrder bst)" "int (length (InOrder bst)) = Size bst"
  using assms sorted_inOrder[of "Less bst" "Root bst"]
  by (simp_all add: bst_inv_def InOrder_def length_inOrder)

lemma strict_total_order_int: "strict_total_order ((<) :: int \<Rightarrow> int \<Rightarrow> bool)"
  unfolding strict_total_order_def by auto

text \<open>
  Claim C1. After any sequence of \<open>Insert\<close> calls on a new tree whose comparator is a
  strict total order, \<open>InOrder\<close> is non-decreasing under the comparator (no element is
  followed by a smaller one) and its length is the tracked \<open>Size\<close>.
\<close>

theorem insert_sequence_inorder:
  assumes "strict_total_order lessf"
  shows "sorted_wrt (\<lambda>a b. \<not> lessf b a) (InOrder (fold (\<lambda>v b. Insert b v) vs (NewBST lessf)))
       \<and> int (length (InOrder (fold (\<lambda>v b. Insert b v) vs (NewBST lessf))))
           = Size (fold (\<lambda>v b. Insert b v) vs (NewBST lessf))"
proof -
  let ?t = "fold (\<lambda>v b. Insert b v) vs (NewBST lessf)"
  have L: "Less (NewBST lessf) = lessf" by (simp add: NewBST_def)
  have inv: "bst_inv ?t" and less: "Less ?t = lessf"
    using fold_Insert_inv[of "NewBST lessf" vs] assms L NewBST_inv by auto
  have "sorted_wrt lessf (InOrder ?t)" using bst_inv_InOrder(1)[OF _ inv] assms less by simp
  moreover have "\<And>a b. lessf a b \<Longrightarrow> \<not> lessf b a"
    using assms unfolding strict_total_order_def by blast
  ultimately have "sorted_wrt (\<lambda>a b. \<not> lessf b a) (InOrder ?t)"
    by (rule sorted_wrt_mono_rel[rotated]) blast
  moreover have "int (length (InOrder ?t)) = Size ?t"
    using bst_inv_InOrder(2)[OF _ inv] assms less by simp
  ultimately show ?thesis by simp
qed

theorem insert_sequence_inorder_witness:
  "strict_total_order ((<) :: int \<Rightarrow> int \<Rightarrow> bool) \<and>
   InOrder (fold (\<lambda>v b. Insert b v) [5, 3, 7, 3 :: int] (NewBST (<))) = [3, 5, 7] \<and>
   sorted_wrt (\<lambda>a b. \<not> b < a) (InOrder (fold (\<lambda>v b. Insert b v) [5, 3, 7, 3 :: int] (NewBST (<)))) \<and>
   Size (fold (\<lambda>v b. Insert b v) [5, 3, 7, 3 :: int] (NewBST (<))) = 3"
  using insert_sequence_inorder[OF strict_total_order_int, of "[5, 3, 7, 3]"]
  by (simp add: strict_total_order_int Insert_def NewBST_def InOrder_def)

subsection \<open>Values that are already present\<close>

lemma sto_irrefl: "strict_total_order lessf \<Longrightarrow> \<not> lessf a a"
  unfolding strict_total_order_def by blast

lemma sto_asym: "strict_total_order lessf \<Longrightarrow> lessf a b \<Longrightarrow> \<not> lessf b a"
  unfolding strict_total_order_def by blast

lemma sto_trans: "strict_total_order lessf \<Longrightarrow> lessf a b \<Longrightarrow> lessf b c \<Longrightarrow> lessf a c"
  unfolding strict_total_order_def by blast

lemma insertRecursive_present:
  assumes "strict_total_order (Less bst)"
  shows "ordered (Less bst) n \<Longrightarrow> x \<in> set_BSTNode n \<Longrightarrow> insertRecursive bst n x = (n, bst)"
proof (induction n)
  case BSTNil
  then show ?case by simp
next
  case (BSTNode v l r)
  from BSTNode.prems(2) consider "x = v" | "x \<in> set_BSTNode l" | "x \<in> set_BSTNode r" by auto
  then show ?case
  proof cases
    case 1
    then show ?thesis using sto_irrefl[OF assms] by simp
  next
    case 2
    then have "Less bst x v" using BSTNode.prems(1) by simp
    moreover have "insertRecursive bst l x = (l, bst)"
      using BSTNode.IH(1) BSTNode.prems(1) 2 by simp
    ultimately show ?thesis by simp
  next
    case 3
    then have "Less bst v x" using BSTNode.prems(1) by simp
    moreover from this have "\<not> Less bst x v" using sto_asym[OF assms] by blast
    moreover have "insertRecursive bst r x = (r, bst)"
      using BSTNode.IH(2) BSTNode.prems(1) 3 by simp
    ultimately show ?thesis by simp
  qed
qed

lemma Insert_present:
  assumes "strict_total_order (Less bst)" "ordered (Less bst) (Root bst)" "x \<in> set (InOrder bst)"
  shows "Insert bst x = bst"
proof -
  have "x \<in> set_BSTNode (Root bst)" using assms(3) by (simp add: InOrder_def set_inOrder)
  from insertRecursive_present[OF assms(1,2) this] show ?thesis by (simp add: Insert_def)
qed

lemma searchRecursive_iff:
  assumes "strict_total_order (Less bst)"
  shows "ordered (Less bst) n \<Longrightarrow> searchRecursive bst n x \<noteq> BSTNil \<longleftrightarrow> x \<in> set_BSTNode n"
proof (induction n)
  case BSTNil
  then show ?case by simp
next
  case (BSTNode v l r)
  show ?case
  proof (cases "v = x")
    case True
    then show ?thesis by simp
  next
    case False
    show ?thesis
    proof (cases "Less bst x v")
      case True
      then have "x \<notin> set_BSTNode r" using BSTNode.prems sto_asym[OF assms] by auto
      with True False BSTNode show ?thesis by auto
    next
      case nl: False
      then have "x \<notin> set_BSTNode l" using BSTNode.prems by auto
      with nl False BSTNode show ?thesis by auto
    qed
  qed
qed

lemma Search_iff:
  "strict_total_order (Less bst) \<Longrightarrow> ordered (Less bst) (Root bst) \<Longrightarrow>
     Search bst x \<longleftrightarrow> x \<in> set (InOrder bst)"
  by (simp add: Search_def InOrder_def set_inOrder searchRecursive_iff)

section \<open>Properties of the ordered map\<close>

lemma getNodeLoop_root_update [simp]:
  "getNodeLoop (tm\<lparr>root_tm := x\<rparr>) n key = getNodeLoop tm n key"
  by (induction n) auto

lemma putRecursive_existing:
  "getNodeLoop tm n key \<noteq> TMNil \<Longrightarrow>
     \<exists>n'. putRecursive tm n key value = (n', tm) \<and> structure_tm n' = structure_tm n
          \<and> sizeOf_tm n' = sizeOf_tm n
          \<and> (\<exists>k l r. getNodeLoop tm n' key = TreeMapNode k value l r)"
proof (induction n)
  case TMNil
  then show ?case by simp
next
  case (TreeMapNode k v l r)
  show ?case
  proof (cases "less_tm tm key k")
    case True
    with TreeMapNode.prems have "getNodeLoop tm l key \<noteq> TMNil" by simp
    from TreeMapNode.IH(1)[OF this] obtain l' where
      "putRecursive tm l key value = (l', tm)" "structure_tm l' = structure_tm l"
      "sizeOf_tm l' = sizeOf_tm l" "\<exists>k l r. getNodeLoop tm l' key = TreeMapNode k value l r"
      by blast
    with True show ?thesis by (simp add: structure_tm_def)
  next
    case False
    show ?thesis
    proof (cases "less_tm tm k key")
      case True
      with False TreeMapNode.prems have "getNodeLoop tm r key \<noteq> TMNil" by simp
      from TreeMapNode.IH(2)[OF this] obtain r' where
        "putRecursive tm r key value = (r', tm)" "structure_tm r' = structure_tm r"
        "sizeOf_tm r' = sizeOf_tm r" "\<exists>k l r. getNodeLoop tm r' key = TreeMapNode k value l r"
        by blast
      with True False show ?thesis by (simp add: structure_tm_def)
    next
      case nl: False
      with False show ?thesis by (simp add: structure_tm_def)
    qed
  qed
qed

lemma Put_existing:
  assumes "ContainsKey tm key"
  shows "size_tm (Put tm key value) = size_tm tm"
    and "less_tm (Put tm key value) = less_tm tm"
    and "structure_tm (root_tm (Put tm key value)) = structure_tm (root_tm tm)"
    and "Get (Put tm key value) key = Some value"
proof -
  from assms have "getNodeLoop tm (root_tm tm) key \<noteq> TMNil"
    by (simp add: ContainsKey_def getNode_def)
  from putRecursive_existing[OF this, of "value"] obtain n' where
    n': "putRecursive tm (root_tm tm) key value = (n', tm)" "structure_tm n' = structure_tm (root_tm tm)"
    "\<exists>k l r. getNodeLoop tm n' key = TreeMapNode k value l r"
    by blast
  then have P: "Put tm key value = tm\<lparr>root_tm := n'\<rparr>" by (simp add: Put_def)
  show "size_tm (Put tm key value) = size_tm tm" by (simp add: P)
  show "less_tm (Put tm key value) = less_tm tm" by (simp add: P)
  show "structure_tm (root_tm (Put tm key value)) = structure_tm (root_tm tm)"
    by (simp add: P n'(2))
  from n'(3) show "Get (Put tm key value) key = Some value"
    by (auto simp: P Get_def getNode_def)
qed

text \<open>
  Claim C5. Inserting a value that is already in a well-ordered tree leaves the tree as it
  is (root, comparator and \<open>Size\<close>, hence every traversal). \<open>Put\<close> with a key that the
  map contains keeps the size, the shape and the keys of the tree, and afterwards \<open>Get\<close>
  of that key returns the new value.
\<close>

theorem existing_key_noop_or_overwrite:
  "(strict_total_order (Less bst) \<and> ordered (Less bst) (Root bst) \<and> v \<in> set (InOrder bst)
      \<longrightarrow> Insert bst v = bst)
   \<and> (ContainsKey tm key
      \<longrightarrow> size_tm (Put tm key value) = size_tm tm
        \<and> structure_tm (root_tm (Put tm key value)) = structure_tm (root_tm tm)
        \<and> Get (Put tm key value) key = Some value)"
  using Insert_present[of bst v] Put_existing[of tm key "value"] by blast

theorem existing_key_noop_or_overwrite_witness:
  "strict_total_order (Less (fold (\<lambda>v b. Insert b v) [2, 1, 3 :: int] (NewBST (<))))
   \<and> ordered (Less (fold (\<lambda>v b. Insert b v) [2, 1, 3 :: int] (NewBST (<))))
        (Root (fold (\<lambda>v b. Insert b v) [2, 1, 3 :: int] (NewBST (<))))
   \<and> (3::int) \<in> set (InOrder (fold (\<lambda>v b. Insert b v) [2, 1, 3 :: int] (NewBST (<))))
   \<and> Insert (fold (\<lambda>v b. Insert b v) [2, 1, 3 :: int] (NewBST (<))) 3
       = fold (\<lambda>v b. Insert b v) [2, 1, 3 :: int] (NewBST (<))
   \<and> ContainsKey (Put (Put (NewTreeMap (<)) (1::int) ''one'') 2 ''two'') 2
   \<and> Get (Put (Put (Put (NewTreeMap (<)) (1::int) ''one'') 2 ''two'') 2 ''deux'') 2 = Some ''deux''
   \<and> size_tm (Put (Put (Put (NewTreeMap (<)) (1::int) ''one'') 2 ''two'') 2 ''deux'') = 2"
  using existing_key_noop_or_overwrite[of "fold (\<lambda>v b. Insert b v) [2, 1, 3 :: int] (NewBST (<))" 3
      "Put (Put (NewTreeMap (<)) (1::int) ''one'') 2 ''two''" 2 "''deux''"]
  by (simp add: strict_total_order_int Insert_def NewBST_def InOrder_def
      ContainsKey_def getNode_def Put_def NewTreeMap_def)

section \<open>Deletion keeps the invariant of the tree\<close>

lemma findMinValue_ordered:
  "n \<noteq> BSTNil \<Longrightarrow> ordered lessf n \<Longrightarrow>
     \<exists>m. findMinValue n = Inr m \<and> m \<in> set_BSTNode n \<and> (\<forall>x \<in> set_BSTNode n. x = m \<or> lessf m x)"
  if "strict_total_order lessf"
proof (induction n)
  case BSTNil
  then show ?case by simp
next
  case (BSTNode v l r)
  show ?case
  proof (cases "l = BSTNil")
    case True
    with BSTNode.prems show ?thesis by auto
  next
    case False
    from BSTNode.IH(1)[OF False] BSTNode.prems obtain m where
      m: "findMinValue l = Inr m" "m \<in> set_BSTNode l" "\<forall>x \<in> set_BSTNode l. x = m \<or> lessf m x"
      by auto
    from m(2) BSTNode.prems have mv: "lessf m v" by simp
    have "\<forall>x \<in> set_BSTNode r. lessf m x"
      using BSTNode.prems mv sto_trans[OF that] by auto
    with m mv False show ?thesis by auto
  qed
qed

lemma deleteRecursive_bst_ordered:
  assumes "strict_total_order (Less bst)"
  shows "ordered (Less bst) n \<Longrightarrow>
     \<exists>n'. deleteRecursive_bst bst n x = Inr n' \<and> ordered (Less bst) n'
        \<and> set_BSTNode n' = set_BSTNode n - {x}
        \<and> sizeOf n' = sizeOf n - (if x \<in> set_BSTNode n then 1 else 0)"
proof (induction n arbitrary: x)
  case BSTNil
  then show ?case by simp
next
  case (BSTNode v l r)
  note irr = sto_irrefl[OF assms] and asym = sto_asym[OF assms] and tr = sto_trans[OF assms]
  from BSTNode.prems have ol: "ordered (Less bst) l" and or: "ordered (Less bst) r"
    and lv: "\<forall>y \<in> set_BSTNode l. Less bst y v" and vr: "\<forall>y \<in> set_BSTNode r. Less bst v y"
    by auto
  have vl: "v \<notin> set_BSTNode l" using lv irr by blast
  have vr': "v \<notin> set_BSTNode r" using vr irr by blast
  have disj: "set_BSTNode l \<inter> set_BSTNode r = {}" using lv vr asym by blast
  consider (lt) "Less bst x v" | (gt) "\<not> Less bst x v" "Less bst v x"
    | (eq) "\<not> Less bst x v" "\<not> Less bst v x" by blast
  then show ?case
  proof cases
    case lt
    from BSTNode.IH(1)[OF ol, of x] obtain l' where
      l': "deleteRecursive_bst bst l x = Inr l'" "ordered (Less bst) l'"
      "set_BSTNode l' = set_BSTNode l - {x}"
      "sizeOf l' = sizeOf l - (if x \<in> set_BSTNode l then 1 else 0)" by blast
    have "x \<noteq> v" using lt irr by blast
    moreover have "x \<notin> set_BSTNode r" using lt vr asym by blast
    ultimately show ?thesis using lt l' or lv vr by auto
  next
    case gt
    from BSTNode.IH(2)[OF or, of x] obtain r' where
      r': "deleteRecursive_bst bst r x = Inr r'" "ordered (Less bst) r'"
      "set_BSTNode r' = set_BSTNode r - {x}"
      "sizeOf r' = sizeOf r - (if x \<in> set_BSTNode r then 1 else 0)" by blast
    have "x \<noteq> v" using gt irr by blast
    moreover have "x \<notin> set_BSTNode l" using gt lv by blast
    ultimately show ?thesis using gt r' ol lv vr by auto
  next
    case eq
    then have xv: "x = v" using assms unfolding strict_total_order_def by blast
    show ?thesis
    proof (cases "l = BSTNil")
      case True
      with eq xv or vr' show ?thesis by auto
    next
      case lne: False
      show ?thesis
      proof (cases "r = BSTNil")
        case True
        with eq xv lne ol vl show ?thesis by auto
      next
        case rne: False
        from findMinValue_ordered[OF assms rne or] obtain m where
          m: "findMinValue r = Inr m" "m \<in> set_BSTNode r"
          "\<forall>y \<in> set_BSTNode r. y = m \<or> Less bst m y" by blast
        from BSTNode.IH(2)[OF or, of m] obtain r' where
          r': "deleteRecursive_bst bst r m = Inr r'" "ordered (Less bst) r'"
          "set_BSTNode r' = set_BSTNode r - {m}"
          "sizeOf r' = sizeOf r - (if m \<in> set_BSTNode r then 1 else 0)" by blast
        have res: "deleteRecursive_bst bst (BSTNode v l r) x = Inr (BSTNode m l r')"
          using eq lne rne m(1) r'(1) by simp
        have vm: "Less bst v m" using m(2) vr by blast
        have "\<forall>y \<in> set_BSTNode l. Less bst y m" using lv vm tr by blast
        moreover have "\<forall>y \<in> set_BSTNode r'. Less bst m y" using r'(3) m(3) by auto
        ultimately have ord: "ordered (Less bst) (BSTNode m l r')" using ol r'(2) by simp
        have ml: "m \<notin> set_BSTNode l" using m(2) disj by blast
        have "m \<noteq> v" using vm irr by blast
        then have set: "set_BSTNode (BSTNode m l r') = set_BSTNode (BSTNode v l r) - {x}"
          using r'(3) m(2) xv vl vr' by auto
        have "sizeOf (BSTNode m l r') = sizeOf (BSTNode v l r) - 1" using r'(4) m(2) by simp
        with res ord set xv show ?thesis by auto
      qed
    qed
  qed
qed

lemma Delete_inv:
  assumes "strict_total_order (Less bst)" "bst_inv bst" "Delete bst v = Inr (b, bst')"
  shows "bst_inv bst' \<and> Less bst' = Less bst"
proof (cases "Search bst v")
  case False
  with assms show ?thesis by (simp add: Delete_def)
next
  case True
  from assms(2) have ord: "ordered (Less bst) (Root bst)" and sz: "Size bst = sizeOf (Root bst)"
    by (simp_all add: bst_inv_def)
  from True have "v \<in> set_BSTNode (Root bst)"
    using searchRecursive_iff[OF assms(1) ord] by (simp add: Search_def)
  with deleteRecursive_bst_ordered[OF assms(1) ord, of v] obtain n' where
    "deleteRecursive_bst bst (Root bst) v = Inr n'" "ordered (Less bst) n'"
    "sizeOf n' = sizeOf (Root bst) - 1" by auto
  with assms(3) True sz show ?thesis by (auto simp: Delete_def bst_inv_def)
qed

lemma reachable_inv:
  assumes "strict_total_order lessf"
  shows "reachable lessf bst \<Longrightarrow> bst_inv bst \<and> Less bst = lessf"
proof (induction rule: reachable.induct)
  case new
  show ?case by (simp add: NewBST_inv) (simp add: NewBST_def)
next
  case (insert bst v)
  then show ?case using Insert_inv[of bst v] assms by (simp add: Insert_Less)
next
  case (delete bst v b bst')
  then show ?case using Delete_inv[of bst v b bst'] assms by simp
next
  case (clear bst)
  then show ?case by (simp add: Clear_def bst_inv_def)
qed

lemma Delete_returns:
  assumes "strict_total_order (Less bst)" "bst_inv bst"
  shows "\<exists>b bst'. Delete bst v = Inr (b, bst')"
proof -
  from assms(2) have "ordered (Less bst) (Root bst)" by (simp add: bst_inv_def)
  from deleteRecursive_bst_ordered[OF assms(1) this, of v]
  show ?thesis by (auto simp: Delete_def)
qed

section \<open>Rank and Select\<close>

lemma sizeOf_nonneg: "0 \<le> sizeOf n"
  by (induction n) auto

lemma rankRecursive_nonneg: "0 \<le> rankRecursive bst n x"
  by (induction n) (auto simp: sizeOf_nonneg intro: add_nonneg_nonneg)

lemma select_rank:
  assumes "strict_total_order (Less bst)"
  shows "ordered (Less bst) n \<Longrightarrow> 0 \<le> r \<Longrightarrow> r < sizeOf n \<Longrightarrow>
     \<exists>v l' r'. selectRecursive n r = BSTNode v l' r' \<and> v \<in> set_BSTNode n \<and> rankRecursive bst n v = r"
proof (induction n arbitrary: r)
  case BSTNil
  then show ?case by simp
next
  case (BSTNode x l rt)
  consider "r < sizeOf l" | "r > sizeOf l" | "r = sizeOf l" by linarith
  then show ?case
  proof cases
    case 1
    from BSTNode.IH(1)[OF _ BSTNode.prems(2) 1] BSTNode.prems(1)
    obtain v l' r' where s: "selectRecursive l r = BSTNode v l' r'" "v \<in> set_BSTNode l"
      "rankRecursive bst l v = r" by auto
    from s(2) BSTNode.prems(1) have "Less bst v x" by simp
    with s 1 show ?thesis by simp
  next
    case 2
    have "0 \<le> r - sizeOf l - 1" "r - sizeOf l - 1 < sizeOf rt"
      using 2 BSTNode.prems(3) by auto
    from BSTNode.IH(2)[OF _ this] BSTNode.prems(1)
    obtain v l' r' where s: "selectRecursive rt (r - sizeOf l - 1) = BSTNode v l' r'"
      "v \<in> set_BSTNode rt" "rankRecursive bst rt v = r - sizeOf l - 1" by auto
    from s(2) BSTNode.prems(1) have lt: "Less bst x v" by simp
    then have "\<not> Less bst v x" using sto_asym[OF assms] by blast
    with s 2 lt show ?thesis by simp
  next
    case 3
    then show ?thesis using sto_irrefl[OF assms] by simp
  qed
qed

lemma rank_select:
  assumes "strict_total_order (Less bst)"
  shows "ordered (Less bst) n \<Longrightarrow> v \<in> set_BSTNode n \<Longrightarrow>
     rankRecursive bst n v < sizeOf n \<and>
     (\<exists>l' r'. selectRecursive n (rankRecursive bst n v) = BSTNode v l' r')"
proof (induction n)
  case BSTNil
  then show ?case by simp
next
  case (BSTNode x l rt)
  from BSTNode.prems(2) consider "v = x" | "v \<in> set_BSTNode l" | "v \<in> set_BSTNode rt" by auto
  then show ?case
  proof cases
    case 1
    then show ?thesis using sto_irrefl[OF assms] sizeOf_nonneg[of rt] by simp
  next
    case 2
    then have lt: "Less bst v x" using BSTNode.prems(1) by simp
    from BSTNode.IH(1) BSTNode.prems(1) 2
    obtain l' r' where s: "rankRecursive bst l v < sizeOf l"
      "selectRecursive l (rankRecursive bst l v) = BSTNode v l' r'" by auto
    with lt show ?thesis using sizeOf_nonneg[of rt] by simp
  next
    case 3
    then have lt: "Less bst x v" using BSTNode.prems(1) by simp
    then have nlt: "\<not> Less bst v x" using sto_asym[OF assms] by blast
    from BSTNode.IH(2) BSTNode.prems(1) 3
    obtain l' r' where s: "rankRecursive bst rt v < sizeOf rt"
      "selectRecursive rt (rankRecursive bst rt v) = BSTNode v l' r'" by auto
    with lt nlt show ?thesis using rankRecursive_nonneg[of bst rt v] by simp
  qed
qed

text \<open>
  Claim C6. Every tree made from \<open>NewBST\<close> by \<open>Insert\<close>, \<open>Delete\<close> and \<open>Clear\<close> is
  well-formed (\<open>reachable_inv\<close>). In a well-formed tree over a strict total order, \<open>Select\<close> at a rank in
  \<open>[0, Size)\<close> finds a value whose \<open>Rank\<close> is that rank, \<open>Select\<close> at the \<open>Rank\<close> of a
  value of the tree finds that value, and \<open>Select\<close> reports not-found exactly for the
  ranks outside \<open>[0, Size)\<close>.
\<close>

theorem rank_select_inverse:
  assumes "strict_total_order (Less bst)" "bst_inv bst"
  shows "(\<forall>r. 0 \<le> r \<and> r < Size bst \<longrightarrow> (\<exists>v. Select bst r = Inr (Some v) \<and> Rank bst v = r))
       \<and> (\<forall>v \<in> set (InOrder bst). Select bst (Rank bst v) = Inr (Some v))
       \<and> (\<forall>r. Select bst r = Inr None \<longleftrightarrow> r < 0 \<or> r \<ge> Size bst)"
proof (intro conjI allI ballI impI)
  from assms(2) have ord: "ordered (Less bst) (Root bst)" and sz: "Size bst = sizeOf (Root bst)"
    by (simp_all add: bst_inv_def)
  {
    fix r assume "0 \<le> r \<and> r < Size bst"
    then have r: "0 \<le> r" "r < sizeOf (Root bst)" using sz by auto
    from select_rank[OF assms(1) ord r]
    obtain v l' r' where "selectRecursive (Root bst) r = BSTNode v l' r'"
      "rankRecursive bst (Root bst) v = r" by blast
    then show "\<exists>v. Select bst r = Inr (Some v) \<and> Rank bst v = r"
      using r sz by (auto simp: Select_def Rank_def)
  next
    fix v assume "v \<in> set (InOrder bst)"
    then have "v \<in> set_BSTNode (Root bst)" by (simp add: InOrder_def set_inOrder)
    from rank_select[OF assms(1) ord this]
    obtain l' r' where "rankRecursive bst (Root bst) v < sizeOf (Root bst)"
      "selectRecursive (Root bst) (rankRecursive bst (Root bst) v) = BSTNode v l' r'" by blast
    then show "Select bst (Rank bst v) = Inr (Some v)"
      using sz rankRecursive_nonneg[of bst "Root bst" v] by (auto simp: Select_def Rank_def)
  next
    fix r
    show "Select bst r = Inr None \<longleftrightarrow> r < 0 \<or> r \<ge> Size bst"
    proof (cases "0 \<le> r \<and> r < Size bst")
      case True
      then have r: "0 \<le> r" "r < sizeOf (Root bst)" using sz by auto
      from select_rank[OF assms(1) ord r]
      obtain v l' r' where "selectRecursive (Root bst) r = BSTNode v l' r'" by blast
      then show ?thesis using True by (auto simp: Select_def)
    next
      case False
      then show ?thesis by (auto simp: Select_def)
    qed
  }
qed

theorem rank_select_inverse_witness:
  "strict_total_order (Less (fold (\<lambda>v b. Insert b v) [2, 1, 3 :: int] (NewBST (<))))
   \<and> bst_inv (fold (\<lambda>v b. Insert b v) [2, 1, 3 :: int] (NewBST (<)))
   \<and> Select (fold (\<lambda>v b. Insert b v) [2, 1, 3 :: int] (NewBST (<))) 2 = Inr (Some 3)
   \<and> Rank (fold (\<lambda>v b. Insert b v) [2, 1, 3 :: int] (NewBST (<))) 3 = 2
   \<and> Select (fold (\<lambda>v b. Insert b v) [2, 1, 3 :: int] (NewBST (<))) 3 = Inr None"
  using rank_select_inverse[of "fold (\<lambda>v b. Insert b v) [2, 1, 3 :: int] (NewBST (<))"]
  by (simp add: strict_total_order_int Insert_def NewBST_def bst_inv_def Select_def Rank_def)

section \<open>Clone\<close>

text \<open>
  What \<open>Clone\<close> builds from a well-ordered tree: the chain of right children that holds
  the values in ascending order. The clone has the in-order sequence of the original,
  and that sequence is also its pre-order.
\<close>

lemma insertRecursive_chain:
  assumes "strict_total_order (Less bst)"
  shows "sorted_wrt (Less bst) (xs @ [x]) \<Longrightarrow>
     insertRecursive bst (chain xs) x = (chain (xs @ [x]), bst\<lparr>Size := Size bst + 1\<rparr>)"
proof (induction xs)
  case Nil
  show ?case by simp
next
  case (Cons y ys)
  then have lt: "Less bst y x" by (simp add: sorted_wrt_append)
  then have "\<not> Less bst x y" using sto_asym[OF assms] by blast
  moreover have "insertRecursive bst (chain ys) x = (chain (ys @ [x]), bst\<lparr>Size := Size bst + 1\<rparr>)"
    using Cons by simp
  ultimately show ?case using lt by simp
qed

lemma fold_Insert_chain:
  assumes "strict_total_order lessf"
  shows "sorted_wrt lessf (pre @ xs) \<Longrightarrow>
     fold (\<lambda>v b. Insert b v) xs \<lparr>Root = chain pre, Less = lessf, Size = s\<rparr>
       = \<lparr>Root = chain (pre @ xs), Less = lessf, Size = s + int (length xs)\<rparr>"
proof (induction xs arbitrary: pre s)
  case Nil
  show ?case by simp
next
  case (Cons x xs)
  let ?b = "\<lparr>Root = chain pre, Less = lessf, Size = s\<rparr>"
  have "sorted_wrt (Less ?b) (pre @ [x])" using Cons.prems by (simp add: sorted_wrt_append)
  from insertRecursive_chain[of ?b, OF _ this] assms
  have "Insert ?b x = \<lparr>Root = chain (pre @ [x]), Less = lessf, Size = s + 1\<rparr>"
    by (simp add: Insert_def)
  moreover have "sorted_wrt lessf ((pre @ [x]) @ xs)" using Cons.prems by simp
  ultimately show ?case using Cons.IH[of "pre @ [x]" "s + 1"] by simp
qed

lemma cloneRecursive_fold:
  "cloneRecursive n result = fold (\<lambda>v b. Insert b v) (inOrderRecursive n []) result"
  by (induction n arbitrary: result)
     (simp_all add: inOrder_node del: inOrderRecursive.simps(2))

lemma inOrder_chain: "inOrderRecursive (chain xs) [] = xs"
  by (induction xs) (simp_all add: inOrder_node del: inOrderRecursive.simps(2))

lemma preOrder_chain: "preOrderRecursive (chain xs) acc = acc @ xs"
  by (induction xs arbitrary: acc) simp_all

lemma height_chain: "heightRecursive (chain xs) = int (length xs) - 1"
  by (induction xs) simp_all

lemma Clone_chain:
  assumes "strict_total_order (Less bst)" "ordered (Less bst) (Root bst)"
  shows "Clone bst = \<lparr>Root = chain (InOrder bst), Less = Less bst,
                       Size = int (length (InOrder bst))\<rparr>"
proof -
  have "sorted_wrt (Less bst) ([] @ InOrder bst)"
    using sorted_inOrder[OF assms] by (simp add: InOrder_def)
  from fold_Insert_chain[OF assms(1) this, of 0] show ?thesis
    by (simp add: Clone_def cloneRecursive_fold NewBST_def InOrder_def)
qed

lemma Clone_traversals:
  assumes "strict_total_order (Less bst)" "ordered (Less bst) (Root bst)"
  shows "InOrder (Clone bst) = InOrder bst"
    and "PreOrder (Clone bst) = InOrder bst"
    and "Height (Clone bst) = int (length (InOrder bst)) - 1"
  by (simp_all add: Clone_chain[OF assms] InOrder_def[of "\<lparr>Root = _, Less = _, Size = _\<rparr>"]
      PreOrder_def Height_def inOrder_chain preOrder_chain height_chain)


lemma levelOrderLoop_chain:
  "xs \<noteq> [] \<Longrightarrow> levelOrderLoop [chain xs] acc = Inr (acc @ xs)"
proof (induction xs arbitrary: acc)
  case Nil
  then show ?case by simp
next
  case (Cons x xs)
  show ?case
  proof (cases xs)
    case Nil
    then show ?thesis by simp
  next
    case (Cons y ys)
    then have "chain xs \<noteq> BSTNil" by simp
    then have "levelOrderLoop [chain (x # xs)] acc = levelOrderLoop [chain xs] (acc @ [x])"
      by simp
    with Cons.IH[of "acc @ [x]"] Cons show ?thesis by simp
  qed
qed

lemma isBalanced_chain:
  "isBalancedRecursive (chain xs) = (if length xs \<le> 2 then int (length xs) else -1)"
proof (induction xs)
  case Nil
  show ?case by simp
next
  case (Cons x xs)
  then show ?case by (cases xs) (auto simp: Let_def split: if_splits)
qed

text \<open>
  What the code does on a well-formed tree over a strict total order: the clone keeps the
  comparator, the in-order sequence and the size, and it is the chain of right children,
  whatever the shape of the original was.
\<close>

lemma Clone_rebuilds_in_order:
  assumes "strict_total_order (Less bst)" "bst_inv bst"
  shows "InOrder (Clone bst) = InOrder bst
       \<and> Size (Clone bst) = Size bst
       \<and> Less (Clone bst) = Less bst
       \<and> Root (Clone bst) = chain (InOrder bst)
       \<and> PreOrder (Clone bst) = InOrder bst
       \<and> LevelOrder (Clone bst) = Inr (InOrder bst)
       \<and> Height (Clone bst) = Size bst - 1
       \<and> IsBalanced (Clone bst) = (Size bst \<le> 2)"
proof -
  from assms(2) have ord: "ordered (Less bst) (Root bst)" and sz: "Size bst = sizeOf (Root bst)"
    by (simp_all add: bst_inv_def)
  note C = Clone_chain[OF assms(1) ord]
  have len: "int (length (InOrder bst)) = Size bst"
    by (simp add: InOrder_def length_inOrder sz)
  have lo: "LevelOrder (Clone bst) = Inr (InOrder bst)"
  proof (cases "InOrder bst = []")
    case True
    then show ?thesis by (simp add: C LevelOrder_def)
  next
    case False
    then have "chain (InOrder bst) \<noteq> BSTNil" by (cases "InOrder bst") simp_all
    with False show ?thesis by (simp add: C LevelOrder_def levelOrderLoop_chain)
  qed
  have bal: "IsBalanced (Clone bst) = (Size bst \<le> 2)"
    using len by (auto simp: C IsBalanced_def isBalanced_chain)
  from Clone_traversals[OF assms(1) ord] C len lo bal show ?thesis by simp
qed

text \<open>
  Claim C8 says that \<open>Clone\<close> is a structural deep copy: the clone has the shape of the
  original, so \<open>PreOrder\<close>, \<open>LevelOrder\<close>, \<open>Height\<close> and \<open>IsBalanced\<close> agree.
  \<open>Clone\<close> is documented as a deep copy of the tree, but it re-inserts the values in
  ascending order. For the tree made by inserting 2, 1, 3 the clone is the chain
  1, 2, 3 of right children, and all four observations differ from the original.
\<close>

theorem clone_changes_shape:
  "PreOrder (Clone (fold (\<lambda>v b. Insert b v) [2, 1, 3 :: int] (NewBST (<))))
     \<noteq> PreOrder (fold (\<lambda>v b. Insert b v) [2, 1, 3 :: int] (NewBST (<)))
   \<and> LevelOrder (Clone (fold (\<lambda>v b. Insert b v) [2, 1, 3 :: int] (NewBST (<))))
     \<noteq> LevelOrder (fold (\<lambda>v b. Insert b v) [2, 1, 3 :: int] (NewBST (<)))
   \<and> Height (Clone (fold (\<lambda>v b. Insert b v) [2, 1, 3 :: int] (NewBST (<))))
     \<noteq> Height (fold (\<lambda>v b. Insert b v) [2, 1, 3 :: int] (NewBST (<)))
   \<and> IsBalanced (Clone (fold (\<lambda>v b. Insert b v) [2, 1, 3 :: int] (NewBST (<))))
     \<noteq> IsBalanced (fold (\<lambda>v b. Insert b v) [2, 1, 3 :: int] (NewBST (<)))
   \<and> PreOrder (fold (\<lambda>v b. Insert b v) [2, 1, 3 :: int] (NewBST (<))) = [2, 1, 3]
   \<and> PreOrder (Clone (fold (\<lambda>v b. Insert b v) [2, 1, 3 :: int] (NewBST (<)))) = [1, 2, 3]
   \<and> Height (fold (\<lambda>v b. Insert b v) [2, 1, 3 :: int] (NewBST (<))) = 1
   \<and> Height (Clone (fold (\<lambda>v b. Insert b v) [2, 1, 3 :: int] (NewBST (<)))) = 2"
  by (simp add: Insert_def NewBST_def Clone_def PreOrder_def LevelOrder_def Height_def IsBalanced_def)

section \<open>Properties of the trie\<close>

text \<open>
  For a word of ASCII characters the bytes are the runes, and \<open>Delete\<close> does what its
  callers expect: the word is no longer found, every word with a different rune sequence
  is found exactly if it was found before, the size drops by one if the word was stored,
  and for a word that is not stored nothing changes and the flag is false.
\<close>

lemma decodeRunes_ascii: "\<forall>b \<in> set bs. b < 0x80 \<Longrightarrow> decodeRunes bs = map int bs"
proof (induction bs)
  case Nil
  show ?case by (subst decodeRunes.simps) simp
next
  case (Cons b bs)
  then have "decodeRunes (b # bs) = int b # decodeRunes bs"
    by (subst decodeRunes.simps) simp
  with Cons show ?case by simp
qed

lemma range_runes_ascii: "ascii_word word \<Longrightarrow> range_runes word = map byte_rune word"
  by (simp add: range_runes_def ascii_word_def decodeRunes_ascii byte_rune_def)

lemma Search_trie_ends: "Search_trie t word = ends_word (root_trie t) (range_runes word)"
  by (simp add: Search_trie_def searchNode_def ends_word_def)

lemma ends_word_Nil [simp]: "ends_word node [] = isEnd node"
  by (simp add: ends_word_def)

lemma ends_word_Cons:
  "ends_word node (c # rs) =
     (case map_of (children node) c of None \<Rightarrow> False | Some child \<Rightarrow> ends_word child rs)"
  by (simp add: ends_word_def split: option.splits)

lemma deleteRecursive_path:
  "i \<le> length word \<Longrightarrow>
   \<exists>flag node'.
     deleteRecursive (Some node) word i sz
       = Inr (flag, Some node', sz - (if ends_word node (map byte_rune (drop i word)) then 1 else 0))
     \<and> (\<forall>rs. ends_word node' rs
               = (ends_word node rs \<and> rs \<noteq> map byte_rune (drop i word)))
     \<and> (flag \<longrightarrow> children node' = [] \<and> \<not> isEnd node')
     \<and> (\<not> ends_word node (map byte_rune (drop i word)) \<longrightarrow> \<not> flag \<and> node' = node)"
proof (induction "length word - i" arbitrary: i node sz)
  case 0
  then have i: "i = length word" by simp
  then have path: "map byte_rune (drop i word) = []" by simp
  obtain ch e v where node: "node = TrieNode ch e v" by (cases node)
  show ?case unfolding path
  proof (cases e)
    case True
    have del: "deleteRecursive (Some node) word i sz = Inr (ch = [], Some (TrieNode ch False None), sz - 1)"
      unfolding node using True i by (subst deleteRecursive.simps) simp
    have ew: "ends_word node []" using True node by simp
    show "\<exists>flag node'.
       deleteRecursive (Some node) word i sz
         = Inr (flag, Some node', sz - (if ends_word node [] then 1 else 0))
       \<and> (\<forall>rs. ends_word node' rs = (ends_word node rs \<and> rs \<noteq> []))
       \<and> (flag \<longrightarrow> children node' = [] \<and> \<not> isEnd node')
       \<and> (\<not> ends_word node [] \<longrightarrow> \<not> flag \<and> node' = node)"
    proof (intro exI conjI)
      show "deleteRecursive (Some node) word i sz
         = Inr (ch = [], Some (TrieNode ch False None), sz - (if ends_word node [] then 1 else 0))"
        using del ew by simp
      show "\<forall>rs. ends_word (TrieNode ch False None) rs = (ends_word node rs \<and> rs \<noteq> [])"
      proof
        fix rs show "ends_word (TrieNode ch False None) rs = (ends_word node rs \<and> rs \<noteq> [])"
          by (cases rs) (simp_all add: node ends_word_Cons)
      qed
      show "ch = [] \<longrightarrow> children (TrieNode ch False None) = [] \<and> \<not> isEnd (TrieNode ch False None)"
        by simp
      show "\<not> ends_word node [] \<longrightarrow> \<not> ch = [] \<and> TrieNode ch False None = node"
        using ew by simp
    qed
  next
    case False
    have del: "deleteRecursive (Some node) word i sz = Inr (False, Some node, sz)"
      unfolding node using False i by (subst deleteRecursive.simps) simp
    have ew: "\<not> ends_word node []" using False node by simp
    show "\<exists>flag node'.
       deleteRecursive (Some node) word i sz
         = Inr (flag, Some node', sz - (if ends_word node [] then 1 else 0))
       \<and> (\<forall>rs. ends_word node' rs = (ends_word node rs \<and> rs \<noteq> []))
       \<and> (flag \<longrightarrow> children node' = [] \<and> \<not> isEnd node')
       \<and> (\<not> ends_word node [] \<longrightarrow> \<not> flag \<and> node' = node)"
    proof (intro exI conjI)
      show "deleteRecursive (Some node) word i sz
         = Inr (False, Some node, sz - (if ends_word node [] then 1 else 0))"
        using del ew by simp
      show "\<forall>rs. ends_word node rs = (ends_word node rs \<and> rs \<noteq> [])"
        using ew by blast
      show "False \<longrightarrow> children node = [] \<and> \<not> isEnd node" by simp
      show "\<not> ends_word node [] \<longrightarrow> \<not> False \<and> node = node" by simp
    qed
  qed
next
  case (Suc n)
  then have i: "i < length word" by simp
  obtain ch e v where node: "node = TrieNode ch e v" by (cases node)
  let ?char = "byte_rune (word ! i)"
  let ?path' = "map byte_rune (drop (Suc i) word)"
  have path: "map byte_rune (drop i word) = ?char # ?path'"
    using i by (simp add: Cons_nth_drop_Suc[symmetric])
  have goal: "\<exists>flag node'.
     deleteRecursive (Some node) word i sz
       = Inr (flag, Some node', sz - (if ends_word node (?char # ?path') then 1 else 0))
     \<and> (\<forall>rs. ends_word node' rs = (ends_word node rs \<and> rs \<noteq> ?char # ?path'))
     \<and> (flag \<longrightarrow> children node' = [] \<and> \<not> isEnd node')
     \<and> (\<not> ends_word node (?char # ?path') \<longrightarrow> \<not> flag \<and> node' = node)"
  proof (cases "map_of ch ?char")
    case None
    have ew: "\<not> ends_word node (?char # ?path')" using None by (simp add: node ends_word_Cons)
    have del: "deleteRecursive (Some node) word i sz = Inr (False, Some node, sz)"
      unfolding node using i None by (subst deleteRecursive.simps) simp
    show ?thesis
    proof (intro exI conjI)
      show "deleteRecursive (Some node) word i sz
         = Inr (False, Some node, sz - (if ends_word node (?char # ?path') then 1 else 0))"
        using del ew by simp
      show "\<forall>rs. ends_word node rs = (ends_word node rs \<and> rs \<noteq> ?char # ?path')"
        using ew by blast
      show "False \<longrightarrow> children node = [] \<and> \<not> isEnd node" by simp
      show "\<not> ends_word node (?char # ?path') \<longrightarrow> \<not> False \<and> node = node" by simp
    qed
  next
    case (Some c)
    have "n = length word - Suc i" "Suc i \<le> length word" using Suc.hyps(2) i by auto
    from Suc.hyps(1)[OF this, of c sz] obtain flag c' where
      rec: "deleteRecursive (Some c) word (Suc i) sz
              = Inr (flag, Some c', sz - (if ends_word c ?path' then 1 else 0))"
      and ends: "\<forall>rs. ends_word c' rs = (ends_word c rs \<and> rs \<noteq> ?path')"
      and prune: "flag \<longrightarrow> children c' = [] \<and> \<not> isEnd c'"
      and absent: "\<not> ends_word c ?path' \<longrightarrow> \<not> flag \<and> c' = c"
      by blast
    have here: "ends_word node (?char # ?path') = ends_word c ?path'"
      by (simp add: node ends_word_Cons Some)
    show ?thesis
    proof (cases flag)
      case True
      let ?ch' = "AList.delete ?char (AList.update ?char c' ch)"
      let ?node' = "TrieNode ?ch' e v"
      have del: "deleteRecursive (Some node) word i sz
          = Inr (\<not> e \<and> ?ch' = [], Some ?node', sz - (if ends_word c ?path' then 1 else 0))"
        unfolding node using i Some rec True
        by (subst deleteRecursive.simps) (simp add: Let_def)
      have none: "\<not> ends_word c' rs" for rs
        using prune True by (cases rs) (simp_all add: ends_word_Cons)
      have stored: "ends_word c ?path'" using absent True by blast
      have ew: "ends_word ?node' rs = (ends_word node rs \<and> rs \<noteq> ?char # ?path')" for rs
      proof (cases rs)
        case Nil
        then show ?thesis by (simp add: node)
      next
        case (Cons k rs')
        show ?thesis
        proof (cases "k = ?char")
          case same: True
          have "\<not> ends_word ?node' rs"
            using Cons same by (simp add: ends_word_Cons delete_conv')
          moreover have "ends_word node rs = ends_word c rs'"
            using Cons same by (simp add: node ends_word_Cons Some)
          moreover have "\<not> (ends_word c rs' \<and> rs' \<noteq> ?path')" using ends none by blast
          ultimately show ?thesis using Cons same by blast
        next
          case False
          then show ?thesis
            using Cons by (simp add: node ends_word_Cons delete_conv' update_conv')
        qed
      qed
      show ?thesis
      proof (intro exI conjI)
        show "deleteRecursive (Some node) word i sz
           = Inr (\<not> e \<and> ?ch' = [], Some ?node',
                  sz - (if ends_word node (?char # ?path') then 1 else 0))"
          using del here by simp
        show "\<forall>rs. ends_word ?node' rs = (ends_word node rs \<and> rs \<noteq> ?char # ?path')"
          using ew by blast
        show "\<not> e \<and> ?ch' = [] \<longrightarrow> children ?node' = [] \<and> \<not> isEnd ?node'" by simp
        show "\<not> ends_word node (?char # ?path') \<longrightarrow> \<not> (\<not> e \<and> ?ch' = []) \<and> ?node' = node"
          using here stored by simp
      qed
    next
      case False
      let ?node' = "TrieNode (AList.update ?char c' ch) e v"
      have del: "deleteRecursive (Some node) word i sz
          = Inr (False, Some ?node', sz - (if ends_word c ?path' then 1 else 0))"
        unfolding node using i Some rec False
        by (subst deleteRecursive.simps) (simp add: Let_def)
      have ew: "ends_word ?node' rs = (ends_word node rs \<and> rs \<noteq> ?char # ?path')" for rs
      proof (cases rs)
        case Nil
        then show ?thesis by (simp add: node)
      next
        case (Cons k rs')
        show ?thesis
        proof (cases "k = ?char")
          case True
          have "ends_word ?node' rs = ends_word c' rs'"
            using Cons True by (simp add: ends_word_Cons update_conv')
          moreover have "ends_word node rs = ends_word c rs'"
            using Cons True by (simp add: node ends_word_Cons Some)
          ultimately show ?thesis using ends Cons True by blast
        next
          case False
          then show ?thesis
            using Cons by (simp add: node ends_word_Cons update_conv')
        qed
      qed
      have same: "\<not> ends_word c ?path' \<longrightarrow> ?node' = node"
      proof
        assume "\<not> ends_word c ?path'"
        with absent have "c' = c" by blast
        moreover have "AList.update ?char c ch = ch"
          using Some by (simp add: map_of_SomeD update_triv)
        ultimately show "?node' = node" by (simp add: node)
      qed
      show ?thesis
      proof (intro exI conjI)
        show "deleteRecursive (Some node) word i sz
           = Inr (False, Some ?node', sz - (if ends_word node (?char # ?path') then 1 else 0))"
          using del here by simp
        show "\<forall>rs. ends_word ?node' rs = (ends_word node rs \<and> rs \<noteq> ?char # ?path')"
          using ew by blast
        show "False \<longrightarrow> children ?node' = [] \<and> \<not> isEnd ?node'" by simp
        show "\<not> ends_word node (?char # ?path') \<longrightarrow> \<not> False \<and> ?node' = node"
          using here same by simp
      qed
    qed
  qed
  then show ?case unfolding path .
qed

lemma Delete_trie_ascii:
  assumes "ascii_word word"
  shows "\<exists>flag t'. Delete_trie t word = Inr (flag, t')
     \<and> \<not> Search_trie t' word
     \<and> (\<forall>other. range_runes other \<noteq> range_runes word \<longrightarrow> Search_trie t' other = Search_trie t other)
     \<and> size_trie t' = size_trie t - (if Search_trie t word then 1 else 0)
     \<and> (\<not> Search_trie t word \<longrightarrow> \<not> flag \<and> t' = t)"
proof -
  have p: "map byte_rune (drop 0 word) = range_runes word"
    using assms by (simp add: range_runes_ascii)
  let ?sz = "size_trie t - (if ends_word (root_trie t) (range_runes word) then 1 else 0)"
  from deleteRecursive_path[of 0 word "root_trie t" "size_trie t"] obtain flag node' where
    del: "deleteRecursive (Some (root_trie t)) word 0 (size_trie t) = Inr (flag, Some node', ?sz)"
    and ew: "\<forall>rs. ends_word node' rs = (ends_word (root_trie t) rs \<and> rs \<noteq> range_runes word)"
    and absent: "\<not> ends_word (root_trie t) (range_runes word) \<longrightarrow> \<not> flag \<and> node' = root_trie t"
    unfolding p by auto
  let ?t' = "\<lparr>root_trie = node', size_trie = ?sz\<rparr>"
  have D: "Delete_trie t word = Inr (flag, ?t')" using del by (simp add: Delete_trie_def)
  have 1: "\<not> Search_trie ?t' word" using ew by (simp add: Search_trie_ends)
  have 2: "\<forall>other. range_runes other \<noteq> range_runes word
              \<longrightarrow> Search_trie ?t' other = Search_trie t other"
    using ew by (simp add: Search_trie_ends)
  have 3: "size_trie ?t' = size_trie t - (if Search_trie t word then 1 else 0)"
    by (simp add: Search_trie_ends)
  have 4: "\<not> Search_trie t word \<longrightarrow> \<not> flag \<and> ?t' = t"
    using absent by (auto simp: Search_trie_ends)
  from D 1 2 3 4 show ?thesis by blast
qed

lemmas trie_eval = Delete_trie_def Insert_trie_def InsertWithValue_def NewTrie_def newTrieNode_def
      range_runes_def decodeRunes.simps deleteRecursive.simps byte_rune_def Search_trie_def searchNode_def
      continuation_def

text \<open>
  Claim C2 says that after \<open>Delete(w)\<close> the word \<open>w\<close> is no longer found.
  \<open>Insert\<close> and \<open>Search\<close> walk the runes of the word, \<open>deleteRecursive\<close> walks its
  bytes. For the one-letter word "e with acute accent", in UTF-8 the bytes \<open>C3 A9\<close>, the
  rune is \<open>U+00E9\<close> and the first byte is the rune \<open>U+00C3\<close>, which is no child of
  the root: \<open>Delete\<close> changes nothing and \<open>Search\<close> still finds the word.
\<close>

theorem delete_non_ascii_word_stays:
  "range_runes [CHR 0xC3, CHR 0xA9] = [0xE9]
   \<and> Search_trie (Insert_trie (NewTrie :: unit Trie) [CHR 0xC3, CHR 0xA9]) [CHR 0xC3, CHR 0xA9]
   \<and> Delete_trie (Insert_trie (NewTrie :: unit Trie) [CHR 0xC3, CHR 0xA9]) [CHR 0xC3, CHR 0xA9]
       = Inr (False, Insert_trie NewTrie [CHR 0xC3, CHR 0xA9])"
  by (simp add: trie_eval)

text \<open>
  Claim C3 says that \<open>Delete\<close> returns true whenever the word is stored. \<open>Delete\<close>
  returns the flag of \<open>deleteRecursive\<close> on the root, which tells whether the root has
  become removable. With \<open>app\<close> and \<open>apple\<close> stored, \<open>Delete(app)\<close> removes \<open>app\<close>
  and returns false.
\<close>

theorem delete_stored_word_returns_false:
  "Search_trie (Insert_trie (Insert_trie (NewTrie :: unit Trie) ''app'') ''apple'') ''app''
   \<and> (\<exists>t'. Delete_trie (Insert_trie (Insert_trie (NewTrie :: unit Trie) ''app'') ''apple'') ''app''
          = Inr (False, t')
        \<and> \<not> Search_trie t' ''app'' \<and> Search_trie t' ''apple'' \<and> size_trie t' = 1)"
  by (simp add: trie_eval)

section \<open>Properties of the graph\<close>

subsection \<open>Symmetry of undirected graphs\<close>

text \<open>
  As long as \<open>RemoveNode\<close> is not used, an undirected graph keeps its adjacency lists
  symmetric, \<open>HasEdge\<close> is symmetric, and every neighbour is a node.
\<close>

lemma adjacency_at_update:
  "adjacency_at (g\<lparr>adjacency := AList.update k ns (adjacency g)\<rparr>) k'
     = (if k' = k then ns else adjacency_at g k')"
  by (simp add: adjacency_at_def update_conv')

lemma adjacency_at_AddNode [simp]: "adjacency_at (AddNode g node) k = adjacency_at g k"
  by (auto simp: AddNode_def adjacency_at_update) (simp add: adjacency_at_def)

lemma directed_AddNode [simp]: "directed (AddNode g node) = directed g"
  by (simp add: AddNode_def)

lemma adjacency_at_AddEdge:
  "\<not> directed g \<Longrightarrow>
   adjacency_at (AddEdge g u v) k =
     adjacency_at g k @ (if k = u then [v] else []) @ (if k = v then [u] else [])"
  by (auto simp: AddEdge_def Let_def AddNode_def adjacency_at_def update_conv' split: option.splits)

lemma directed_AddEdge [simp]: "directed (AddEdge g u v) = directed g"
  by (simp add: AddEdge_def Let_def)

lemma adjacency_at_removeFirst:
  "adjacency_at (removeFirst g u v) k =
     (if k = u then remove1 v (adjacency_at g u) else adjacency_at g k)"
  by (cases "map_of (adjacency g) u")
     (simp_all add: removeFirst_def adjacency_at_update, simp_all add: adjacency_at_def)

lemma directed_removeFirst [simp]: "directed (removeFirst g u v) = directed g"
  by (simp add: removeFirst_def split: option.splits)

lemma directed_RemoveEdge [simp]: "directed (RemoveEdge g u v) = directed g"
  by (simp add: RemoveEdge_def Let_def)

lemma count_list_remove1:
  "count_list (remove1 x xs) y = count_list xs y - (if x = y \<and> x \<in> set xs then 1 else 0)"
  by (induction xs) auto

lemma in_set_count: "x \<in> set xs \<longleftrightarrow> 0 < count_list xs x"
  by (induction xs) auto

lemma symmetric_adjacency_AddEdge:
  assumes "symmetric_adjacency g" "\<not> directed g"
  shows "symmetric_adjacency (AddEdge g u v)"
  using assms unfolding symmetric_adjacency_def by (auto simp: adjacency_at_AddEdge)

lemma symmetric_adjacency_RemoveEdge:
  assumes "symmetric_adjacency g" "\<not> directed g"
  shows "symmetric_adjacency (RemoveEdge g u v)"
proof (cases "u = v")
  case True
  have "count_list (adjacency_at (RemoveEdge g u u) a) b
      = count_list (adjacency_at (RemoveEdge g u u) b) a" for a b
  proof (cases "a = b")
    case True
    then show ?thesis by simp
  next
    case False
    then show ?thesis
      using assms unfolding symmetric_adjacency_def
      by (auto simp: RemoveEdge_def Let_def adjacency_at_removeFirst count_list_remove1)
  qed
  with True show ?thesis unfolding symmetric_adjacency_def by blast
next
  case False
  have s: "count_list (adjacency_at g a) b = count_list (adjacency_at g b) a" for a b
    using assms(1) unfolding symmetric_adjacency_def by blast
  have mem: "v \<in> set (adjacency_at g u) \<longleftrightarrow> u \<in> set (adjacency_at g v)"
    using s[of u v] by (simp add: in_set_count)
  have at: "adjacency_at (RemoveEdge g u v) k =
      (if k = u then remove1 v (adjacency_at g u)
       else if k = v then remove1 u (adjacency_at g v) else adjacency_at g k)" for k
    using assms(2) False by (auto simp: RemoveEdge_def Let_def adjacency_at_removeFirst)
  show ?thesis unfolding symmetric_adjacency_def
  proof (intro allI)
    fix a b
    show "count_list (adjacency_at (RemoveEdge g u v) a) b
        = count_list (adjacency_at (RemoveEdge g u v) b) a"
      using False mem s[of a b] s[of u v]
      by (auto simp: at count_list_remove1)
  qed
qed

lemma edited_symmetric: "edited g \<Longrightarrow> symmetric_adjacency g \<and> \<not> directed g"
proof (induction rule: edited.induct)
  case new
  show ?case by (simp add: symmetric_adjacency_def NewGraph_def adjacency_at_def)
next
  case (add_node g node)
  then show ?case by (simp add: symmetric_adjacency_def)
next
  case (add_edge g u v)
  then show ?case by (simp add: symmetric_adjacency_AddEdge)
next
  case (remove_edge g u v)
  then show ?case by (simp add: symmetric_adjacency_RemoveEdge)
qed

lemma HasEdge_adjacency_at: "HasEdge g u v \<longleftrightarrow> v \<in> set (adjacency_at g u)"
  by (simp add: HasEdge_def adjacency_at_def split: option.splits)

lemma edited_HasEdge_sym: "edited g \<Longrightarrow> HasEdge g u v = HasEdge g v u"
  using edited_symmetric[of g]
  by (simp add: HasEdge_adjacency_at in_set_count symmetric_adjacency_def)

lemma HasNode_AddNode: "HasNode (AddNode g node) k \<longleftrightarrow> k = node \<or> HasNode g k"
  by (auto simp: HasNode_def AddNode_def update_conv')

lemma HasNode_AddEdge: "HasNode (AddEdge g u v) k \<longleftrightarrow> k = u \<or> k = v \<or> HasNode g k"
  by (auto simp: HasNode_def AddEdge_def AddNode_def Let_def update_conv')

lemma HasNode_removeFirst [simp]: "HasNode (removeFirst g u v) k = HasNode g k"
  by (auto simp: HasNode_def removeFirst_def update_conv' split: option.splits)

lemma HasNode_RemoveEdge [simp]: "HasNode (RemoveEdge g u v) k = HasNode g k"
  by (simp add: RemoveEdge_def Let_def)

lemma edited_neighbours_are_nodes:
  "edited g \<Longrightarrow> v \<in> set (adjacency_at g u) \<Longrightarrow> HasNode g v"
proof (induction arbitrary: u v rule: edited.induct)
  case new
  then show ?case by (simp add: NewGraph_def adjacency_at_def)
next
  case (add_node g node)
  then show ?case by (auto simp: HasNode_AddNode)
next
  case (add_edge g a b)
  have "\<not> directed g" using edited_symmetric[OF add_edge.hyps] by simp
  with add_edge show ?case
    by (auto simp: adjacency_at_AddEdge HasNode_AddEdge split: if_splits)
next
  case (remove_edge g a b)
  have nd: "\<not> directed g" using edited_symmetric[OF remove_edge.hyps] by simp
  have "set (adjacency_at (RemoveEdge g a b) u) \<subseteq> set (adjacency_at g u)"
    using nd set_remove1_subset[of b "adjacency_at g a"] set_remove1_subset[of a "adjacency_at g b"]
      set_remove1_subset[of a "remove1 a (adjacency_at g a)"] set_remove1_subset[of a "adjacency_at g a"]
    by (auto simp: RemoveEdge_def Let_def adjacency_at_removeFirst split: if_splits)
  with remove_edge show ?case by auto
qed

lemmas graph_eval = AddEdge_def AddNode_def NewGraph_def RemoveNode_def RemoveEdge_def removeFirst_def
  HasEdge_def HasNode_def adjacency_at_def enumerates_def nodes_def wf_graph_def

text \<open>
  Claim C4 says that after \<open>RemoveNode\<close> no adjacency list mentions the removed node and
  that \<open>HasEdge\<close> stays symmetric in an undirected graph. \<open>RemoveNode\<close> calls
  \<open>RemoveEdge\<close> once per key, and \<open>RemoveEdge\<close> removes one occurrence. After adding
  the edge between 1 and 2 twice, removing node 2 leaves one copy of 2 in the list of 1,
  in whichever order the keys are visited.
\<close>

theorem remove_node_leaves_parallel_edge:
  "adjacency (AddEdge (AddEdge (NewGraph False) (1::int) 2) 1 2) = [(1, [2, 2]), (2, [1, 1])]
   \<and> enumerates (AddEdge (AddEdge (NewGraph False) (1::int) 2) 1 2) [1, 2]
   \<and> enumerates (AddEdge (AddEdge (NewGraph False) (1::int) 2) 1 2) [2, 1]
   \<and> RemoveNode [1, 2] (AddEdge (AddEdge (NewGraph False) (1::int) 2) 1 2) 2
       = \<lparr>adjacency = [(1, [2])], directed = False\<rparr>
   \<and> RemoveNode [2, 1] (AddEdge (AddEdge (NewGraph False) (1::int) 2) 1 2) 2
       = \<lparr>adjacency = [(1, [2])], directed = False\<rparr>
   \<and> \<not> HasNode \<lparr>adjacency = [(1::int, [2])], directed = False\<rparr> 2
   \<and> HasEdge \<lparr>adjacency = [(1::int, [2])], directed = False\<rparr> 1 2
   \<and> \<not> HasEdge \<lparr>adjacency = [(1::int, [2])], directed = False\<rparr> 2 1"
  by (simp add: graph_eval insert_commute)

lemmas set_eval = Equals_def Equals_set_def NewSetFromSlice_def Add_def NewSet_def Size_set_def
  IsSubset_def Contains_def

subsection \<open>Equals\<close>

text \<open>
  Claim C9 as stated: graphs with the same directedness, node sets and neighbour sets
  compare as equal, whatever the multiplicities. It fails for two graphs whose lists for
  node 1 are \<open>[2, 2]\<close> and \<open>[2]\<close>: \<open>Equals\<close> compares the lengths of the lists first.
\<close>

theorem equals_compares_lengths_counterexample:
  "wf_graph \<lparr>adjacency = [(1::int, [2, 2]), (2, [])], directed = True\<rparr>
   \<and> wf_graph \<lparr>adjacency = [(1::int, [2]), (2, [])], directed = True\<rparr>
   \<and> nodes \<lparr>adjacency = [(1::int, [2, 2]), (2, [])], directed = True\<rparr>
       = nodes \<lparr>adjacency = [(1::int, [2]), (2, [])], directed = True\<rparr>
   \<and> set (GetNeighbors \<lparr>adjacency = [(1::int, [2, 2]), (2, [])], directed = True\<rparr> 1)
       = set (GetNeighbors \<lparr>adjacency = [(1::int, [2]), (2, [])], directed = True\<rparr> 1)
   \<and> set (GetNeighbors \<lparr>adjacency = [(1::int, [2, 2]), (2, [])], directed = True\<rparr> 2)
       = set (GetNeighbors \<lparr>adjacency = [(1::int, [2]), (2, [])], directed = True\<rparr> 2)
   \<and> \<not> Equals \<lparr>adjacency = [(1::int, [2, 2]), (2, [])], directed = True\<rparr>
               \<lparr>adjacency = [(1::int, [2]), (2, [])], directed = True\<rparr>"
  by (simp add: wf_graph_def nodes_def GetNeighbors_def set_eval)

lemma NewSetFromSlice_set: "NewSetFromSlice xs = set xs"
proof -
  have "fold (\<lambda>item s. Add s item) xs S = S \<union> set xs" for S
    by (induction xs arbitrary: S) (auto simp: Add_def)
  then show ?thesis by (simp add: NewSetFromSlice_def NewSet_def)
qed

lemma Equals_set_lists: "Equals_set (set xs :: 'a set) (set ys) \<longleftrightarrow> set xs = set ys"
proof
  assume "Equals_set (set xs) (set ys)"
  then have "card (set xs) = card (set ys)" "set xs \<subseteq> set ys"
    by (auto simp: Equals_set_def Size_set_def IsSubset_def Contains_def split: if_splits)
  then show "set xs = set ys" by (simp add: card_subset_eq)
next
  assume "set xs = set ys"
  then show "Equals_set (set xs) (set ys)"
    by (simp add: Equals_set_def Size_set_def IsSubset_def Contains_def)
qed

lemma wf_lookup:
  "wf_graph g \<Longrightarrow> (n, ns) \<in> set (adjacency g) \<Longrightarrow> map_of (adjacency g) n = Some ns"
  by (simp add: wf_graph_def)

lemma wf_length: "wf_graph g \<Longrightarrow> length (adjacency g) = card (nodes g)"
  unfolding wf_graph_def nodes_def
  by (metis distinct_card length_map set_map)

lemma nodes_lookup: "n \<in> nodes g \<longleftrightarrow> map_of (adjacency g) n \<noteq> None"
  by (simp add: nodes_def map_of_eq_None_iff)

text \<open>
  Claim C9, amended. For graphs with one entry per node, \<open>Equals\<close> is true exactly when
  the directedness and the node sets agree and, for every node, the two neighbour lists
  have the same length and the same set of elements. Multiplicities are compared no
  further: lists of equal length over the same elements compare as equal.
\<close>

theorem Equals_iff:
  assumes "wf_graph g" "wf_graph other"
  shows "Equals g other \<longleftrightarrow>
     directed g = directed other \<and> nodes g = nodes other
     \<and> (\<forall>n \<in> nodes g. length (GetNeighbors g n) = length (GetNeighbors other n)
                      \<and> set (GetNeighbors g n) = set (GetNeighbors other n))"
proof
  assume eq: "Equals g other"
  then have d: "directed g = directed other"
    and len: "length (adjacency g) = length (adjacency other)"
    and all: "\<forall>(n, ns) \<in> set (adjacency g).
        case map_of (adjacency other) n of None \<Rightarrow> False
        | Some ons \<Rightarrow> length ns = length ons \<and> set ns = set ons"
    by (auto simp: Equals_def list_all_iff NewSetFromSlice_set Equals_set_lists
        split: if_splits option.splits)
  have sub: "nodes g \<subseteq> nodes other"
  proof
    fix n assume "n \<in> nodes g"
    then obtain ns where "(n, ns) \<in> set (adjacency g)" by (auto simp: nodes_def)
    with all have "map_of (adjacency other) n \<noteq> None" by (auto split: option.splits)
    then show "n \<in> nodes other" by (simp add: nodes_lookup)
  qed
  have "card (nodes g) = card (nodes other)"
    using len wf_length[OF assms(1)] wf_length[OF assms(2)] by simp
  moreover have "finite (nodes other)" by (simp add: nodes_def)
  ultimately have nodes_eq: "nodes g = nodes other" using sub by (simp add: card_subset_eq)
  have "length (GetNeighbors g n) = length (GetNeighbors other n)
        \<and> set (GetNeighbors g n) = set (GetNeighbors other n)" if "n \<in> nodes g" for n
  proof -
    from that obtain ns where in_g: "(n, ns) \<in> set (adjacency g)" by (auto simp: nodes_def)
    then have "GetNeighbors g n = ns" using wf_lookup[OF assms(1)] by (simp add: GetNeighbors_def)
    moreover from all in_g obtain ons where "map_of (adjacency other) n = Some ons"
      "length ns = length ons" "set ns = set ons" by (auto split: option.splits)
    ultimately show ?thesis by (simp add: GetNeighbors_def)
  qed
  with d nodes_eq show "directed g = directed other \<and> nodes g = nodes other
     \<and> (\<forall>n \<in> nodes g. length (GetNeighbors g n) = length (GetNeighbors other n)
                      \<and> set (GetNeighbors g n) = set (GetNeighbors other n))" by blast
next
  assume r: "directed g = directed other \<and> nodes g = nodes other
     \<and> (\<forall>n \<in> nodes g. length (GetNeighbors g n) = length (GetNeighbors other n)
                      \<and> set (GetNeighbors g n) = set (GetNeighbors other n))"
  then have len: "length (adjacency g) = length (adjacency other)"
    using wf_length[OF assms(1)] wf_length[OF assms(2)] by simp
  have "case map_of (adjacency other) n of None \<Rightarrow> False
        | Some ons \<Rightarrow> if length ns \<noteq> length ons then False
                      else Equals_set (NewSetFromSlice ns) (NewSetFromSlice ons)"
    if "(n, ns) \<in> set (adjacency g)" for n ns
  proof -
    from that have n: "n \<in> nodes g" by (force simp: nodes_def)
    from that have g: "GetNeighbors g n = ns"
      using wf_lookup[OF assms(1)] by (simp add: GetNeighbors_def)
    from n r have "n \<in> nodes other" by simp
    then obtain ons where o: "map_of (adjacency other) n = Some ons"
      by (auto simp: nodes_lookup)
    then have "GetNeighbors other n = ons" by (simp add: GetNeighbors_def)
    with r n g have "length ns = length ons" "set ns = set ons" by auto
    with o show ?thesis by (simp add: NewSetFromSlice_set Equals_set_lists)
  qed
  then have "list_all (\<lambda>(node, neighbors).
                case map_of (adjacency other) node of
                  None \<Rightarrow> False
                | Some otherNeighbors \<Rightarrow>
                    if length neighbors \<noteq> length otherNeighbors then False
                    else Equals_set (NewSetFromSlice neighbors) (NewSetFromSlice otherNeighbors))
             (adjacency g)"
    unfolding list_all_iff by blast
  with r len show "Equals g other" by (simp add: Equals_def)
qed

theorem Equals_iff_witness:
  "wf_graph \<lparr>adjacency = [(1::int, [2, 2, 3]), (2, []), (3, [])], directed = True\<rparr>
   \<and> wf_graph \<lparr>adjacency = [(3::int, []), (1, [3, 2, 3]), (2, [])], directed = True\<rparr>
   \<and> Equals \<lparr>adjacency = [(1::int, [2, 2, 3]), (2, []), (3, [])], directed = True\<rparr>
            \<lparr>adjacency = [(3::int, []), (1, [3, 2, 3]), (2, [])], directed = True\<rparr>
   \<and> nodes \<lparr>adjacency = [(1::int, [2, 2, 3]), (2, []), (3, [])], directed = True\<rparr>
       = nodes \<lparr>adjacency = [(3::int, []), (1, [3, 2, 3]), (2, [])], directed = True\<rparr>"
  using Equals_iff[of "\<lparr>adjacency = [(1::int, [2, 2, 3]), (2, []), (3, [])], directed = True\<rparr>"
      "\<lparr>adjacency = [(3::int, []), (1, [3, 2, 3]), (2, [])], directed = True\<rparr>"]
  by (simp add: wf_graph_def nodes_def GetNeighbors_def insert_commute)

subsection \<open>Traversals from a node that is not in the graph\<close>

lemma GetNeighbors_missing: "\<not> HasNode g s \<Longrightarrow> GetNeighbors g s = []"
  by (simp add: HasNode_def GetNeighbors_def)

text \<open>
  Claim C10. When \<open>start\<close> is not a node of the graph, \<open>BFS\<close> and \<open>DFS\<close> return the
  one-element sequence \<open>[start]\<close>; \<open>ShortestPath\<close> returns \<open>(nil, false)\<close> when either
  endpoint is missing.
\<close>

theorem missing_start_node:
  "(\<not> HasNode g s \<longrightarrow> BFS g s = Some [s] \<and> DFS g s = [s])
   \<and> (\<not> HasNode g s \<or> \<not> HasNode g e \<longrightarrow> ShortestPath zero g s e = Some ([], False))"
proof (intro conjI impI)
  assume a: "\<not> HasNode g s"
  have "bfsLoop g [s] {s} [] = bfsLoop g [] {s} [s]"
    by (subst bfsLoop.simps) (simp add: GetNeighbors_missing[OF a] bfsEnqueue_def)
  also have "\<dots> = Some [s]" by (subst bfsLoop.simps) simp
  finally show "BFS g s = Some [s]" by (simp add: BFS_def)
  show "DFS g s = [s]" by (simp add: DFS_def GetNeighbors_missing[OF a])
next
  assume "\<not> HasNode g s \<or> \<not> HasNode g e"
  then show "ShortestPath zero g s e = Some ([], False)" by (auto simp: ShortestPath_def)
qed

theorem missing_start_node_witness:
  "\<not> HasNode (AddEdge (NewGraph True) (1::int) 2) 7
   \<and> BFS (AddEdge (NewGraph True) (1::int) 2) 7 = Some [7]
   \<and> DFS (AddEdge (NewGraph True) (1::int) 2) 7 = [7]
   \<and> ShortestPath 0 (AddEdge (NewGraph True) (1::int) 2) 7 1 = Some ([], False)
   \<and> ShortestPath 0 (AddEdge (NewGraph True) (1::int) 2) 1 7 = Some ([], False)"
  using missing_start_node[of "AddEdge (NewGraph True) (1::int) 2" 7 1 0]
    missing_start_node[of "AddEdge (NewGraph True) (1::int) 2" 1 7 0]
  by (simp add: graph_eval)

subsection \<open>Topological sort\<close>

text \<open>The reversal loop, started at both ends of the slice, reverses it and does not panic.\<close>

lemma reverseLoop_nth:
  "0 \<le> i \<Longrightarrow> j < int (length xs) \<Longrightarrow>
     \<exists>ys. reverseLoop xs i j = Inr ys \<and> length ys = length xs \<and>
          (\<forall>k < length xs. ys ! k =
             (if i \<le> int k \<and> int k \<le> j then xs ! nat (i + j - int k) else xs ! k))"
proof (induction xs i j rule: reverseLoop.induct)
  case (1 result i j)
  show ?case
  proof (cases "i < j")
    case False
    have "\<forall>k < length result. result ! k =
             (if i \<le> int k \<and> int k \<le> j then result ! nat (i + j - int k) else result ! k)"
    proof (intro allI impI)
      fix k assume "k < length result"
      show "result ! k = (if i \<le> int k \<and> int k \<le> j then result ! nat (i + j - int k) else result ! k)"
      proof (cases "i \<le> int k \<and> int k \<le> j")
        case True
        with False have "nat (i + j - int k) = k" by linarith
        with True show ?thesis by simp
      next
        case False
        then show ?thesis by auto
      qed
    qed
    with False show ?thesis by (subst reverseLoop.simps) simp
  next
    case True
    let ?xs' = "result[nat i := result ! nat j, nat j := result ! nat i]"
    have inr: "0 \<le> i \<and> j < int (length result)" using "1.prems" by simp
    have "0 \<le> i + 1" "j - 1 < int (length ?xs')" using "1.prems" by auto
    from "1.IH"[OF True inr this] obtain ys where
      ys: "reverseLoop ?xs' (i + 1) (j - 1) = Inr ys" "length ys = length result"
      and nth: "\<forall>k < length result. ys ! k =
             (if i + 1 \<le> int k \<and> int k \<le> j - 1 then ?xs' ! nat (i + 1 + (j - 1) - int k) else ?xs' ! k)"
      by auto
    have eq: "reverseLoop result i j = Inr ys"
      using True inr ys(1) by (subst reverseLoop.simps) simp
    have "ys ! k = (if i \<le> int k \<and> int k \<le> j then result ! nat (i + j - int k) else result ! k)"
      if k: "k < length result" for k
    proof -
      have ki: "nat i < length result" and kj: "nat j < length result" using inr True by auto
      have ne: "nat i \<noteq> nat j" using inr True by linarith
      consider "int k = i" | "int k = j" | "i < int k \<and> int k < j" | "int k < i \<or> j < int k"
        by linarith
      then show ?thesis
      proof cases
        case 1
        then have kk: "k = nat i" by simp
        have "ys ! k = ?xs' ! k" using nth k 1 by simp
        also have "\<dots> = result ! nat j" using kk ne ki by (simp add: nth_list_update)
        also have "nat j = nat (i + j - int k)" using 1 by simp
        finally show ?thesis using 1 True by simp
      next
        case 2
        then have kk: "k = nat j" by simp
        have "ys ! k = ?xs' ! k" using nth k 2 by simp
        also have "\<dots> = result ! nat i" using kk kj by (simp add: nth_list_update)
        also have "nat i = nat (i + j - int k)" using 2 by simp
        finally show ?thesis using 2 True by simp
      next
        case 3
        let ?m = "nat (i + j - int k)"
        have m: "?m \<noteq> nat i" "?m \<noteq> nat j" "?m < length result" using 3 inr by auto
        have "ys ! k = ?xs' ! nat (i + 1 + (j - 1) - int k)" using nth k 3 by simp
        also have "nat (i + 1 + (j - 1) - int k) = ?m" by simp
        also have "?xs' ! ?m = result ! ?m" using m by (simp add: nth_list_update)
        finally show ?thesis using 3 by simp
      next
        case 4
        have "k \<noteq> nat i" "k \<noteq> nat j" using 4 inr True by linarith+
        then have "?xs' ! k = result ! k" by (simp add: nth_list_update)
        moreover have "ys ! k = ?xs' ! k" using nth k 4 by auto
        ultimately show ?thesis using 4 by auto
      qed
    qed
    with eq ys(2) show ?thesis by blast
  qed
qed

lemma reverseLoop_rev: "reverseLoop xs 0 (int (length xs) - 1) = Inr (rev xs)"
proof -
  from reverseLoop_nth[of 0 "int (length xs) - 1" xs] obtain ys where
    ys: "reverseLoop xs 0 (int (length xs) - 1) = Inr ys" "length ys = length xs"
    and nth: "\<forall>k < length xs. ys ! k =
       (if 0 \<le> int k \<and> int k \<le> int (length xs) - 1
        then xs ! nat (0 + (int (length xs) - 1) - int k) else xs ! k)"
    by auto
  have "ys = rev xs"
  proof (rule nth_equalityI)
    show "length ys = length (rev xs)" using ys(2) by simp
  next
    fix k assume "k < length ys"
    then have k: "k < length xs" using ys(2) by simp
    then have "nat (0 + (int (length xs) - 1) - int k) = length xs - Suc k" by linarith
    with nth k have "ys ! k = xs ! (length xs - Suc k)" by simp
    then show "ys ! k = rev xs ! k" using k by (simp add: rev_nth)
  qed
  with ys(1) show ?thesis by simp
qed

text \<open>
  The cycle check finds no cycle in an acyclic graph: the nodes on the recursion stack all
  reach the node of the current call, so a visited neighbour on the stack would close a
  cycle.
\<close>

lemma HasEdge_GetNeighbors: "HasEdge g u v \<longleftrightarrow> v \<in> set (GetNeighbors g u)"
  by (simp add: HasEdge_def GetNeighbors_def split: option.splits)

lemma edges_GetNeighbors: "(u, v) \<in> edges g \<longleftrightarrow> v \<in> set (GetNeighbors g u)"
  by (simp add: edges_def HasEdge_GetNeighbors)

lemma acyclic_no_back_edge:
  assumes "acyclic (edges g)" "(x, node) \<in> (edges g)\<^sup>*" "x \<in> set (GetNeighbors g node)"
  shows False
proof -
  have "(node, x) \<in> edges g" using assms(3) by (simp add: edges_GetNeighbors)
  with assms(2) have "(x, x) \<in> (edges g)\<^sup>+" by (rule rtrancl_into_trancl1)
  with assms(1) show False by (simp add: acyclic_def)
qed

lemma hasCycle_sound:
  "acyclic (edges g) \<Longrightarrow> snd st \<subseteq> fst st \<Longrightarrow> node \<notin> fst st \<Longrightarrow>
     (\<forall>x \<in> snd st. (x, node) \<in> (edges g)\<^sup>*) \<Longrightarrow>
     (\<exists>v'. hasCycleDFS g node st = (False, v', snd st) \<and> fst st \<subseteq> v')"
  "acyclic (edges g) \<Longrightarrow> snd st \<subseteq> fst st \<Longrightarrow> node \<in> snd st \<Longrightarrow>
     (\<forall>x \<in> snd st. (x, node) \<in> (edges g)\<^sup>*) \<Longrightarrow> set ns \<subseteq> set (GetNeighbors g node) \<Longrightarrow>
     (\<exists>v'. hasCycleNeighbors g node ns st = (False, v', snd st - {node}) \<and> fst st \<subseteq> v')"
proof (induction g node st and g node ns st rule: hasCycleDFS_hasCycleNeighbors.induct)
  case (1 g node visited recStack)
  have "\<exists>v'. hasCycleNeighbors g node (GetNeighbors g node) (insert node visited, insert node recStack)
          = (False, v', snd (insert node visited, insert node recStack) - {node})
        \<and> fst (insert node visited, insert node recStack) \<subseteq> v'"
  proof (rule "1.IH")
    show "acyclic (edges g)" by fact
    show "snd (insert node visited, insert node recStack) \<subseteq> fst (insert node visited, insert node recStack)"
      using "1.prems"(2) by auto
    show "node \<in> snd (insert node visited, insert node recStack)" by simp
    show "\<forall>x\<in>snd (insert node visited, insert node recStack). (x, node) \<in> (edges g)\<^sup>*"
      using "1.prems"(4) by auto
    show "set (GetNeighbors g node) \<subseteq> set (GetNeighbors g node)" by simp
  qed
  then obtain v' where
    r: "hasCycleNeighbors g node (GetNeighbors g node) (insert node visited, insert node recStack)
          = (False, v', insert node recStack - {node})" and sub: "insert node visited \<subseteq> v'"
    by auto
  have "node \<notin> recStack" using "1.prems"(2,3) by auto
  then have "insert node recStack - {node} = recStack" by auto
  with r sub show ?case by auto
next
  case (2 g node visited recStack)
  then show ?case by simp
next
  case (3 g node neighbor rest visited recStack)
  have acyc: "acyclic (edges g)" by fact
  have sub: "recStack \<subseteq> visited" using "3.prems"(2) by simp
  have node: "node \<in> recStack" using "3.prems"(3) by simp
  have reach: "\<forall>x \<in> recStack. (x, node) \<in> (edges g)\<^sup>*" using "3.prems"(4) by simp
  have nb: "neighbor \<in> set (GetNeighbors g node)" and rest: "set rest \<subseteq> set (GetNeighbors g node)"
    using "3.prems"(5) by auto
  have edge: "(node, neighbor) \<in> edges g" using nb by (simp add: edges_GetNeighbors)
  show ?case
  proof (cases "neighbor \<notin> visited")
    case True
    have "\<forall>x \<in> snd (visited, recStack). (x, neighbor) \<in> (edges g)\<^sup>*"
      using reach edge by (auto intro: rtrancl_into_rtrancl)
    with "3.IH"(1)[OF True acyc] sub True obtain v1 where
      r1: "hasCycleDFS g neighbor (visited, recStack) = (False, v1, recStack)" and s1: "visited \<subseteq> v1"
      by auto
    have "\<exists>v'. hasCycleNeighbors g node rest (snd (hasCycleDFS g neighbor (visited, recStack)))
            = (False, v', snd (snd (hasCycleDFS g neighbor (visited, recStack))) - {node})
          \<and> fst (snd (hasCycleDFS g neighbor (visited, recStack))) \<subseteq> v'"
    proof (rule "3.IH"(2)[OF True refl _ acyc])
      show "\<not> fst (hasCycleDFS g neighbor (visited, recStack))" using r1 by simp
      show "snd (snd (hasCycleDFS g neighbor (visited, recStack)))
              \<subseteq> fst (snd (hasCycleDFS g neighbor (visited, recStack)))"
        using r1 sub s1 by auto
      show "node \<in> snd (snd (hasCycleDFS g neighbor (visited, recStack)))" using r1 node by simp
      show "\<forall>x\<in>snd (snd (hasCycleDFS g neighbor (visited, recStack))). (x, node) \<in> (edges g)\<^sup>*"
        using r1 reach by simp
      show "set rest \<subseteq> set (GetNeighbors g node)" by fact
    qed
    then obtain v' where
      "hasCycleNeighbors g node rest (v1, recStack) = (False, v', recStack - {node})" "v1 \<subseteq> v'"
      using r1 by auto
    with True r1 s1 show ?thesis by auto
  next
    case False
    have notin: "neighbor \<notin> recStack"
    proof
      assume "neighbor \<in> recStack"
      with reach have "(neighbor, node) \<in> (edges g)\<^sup>*" by blast
      from acyclic_no_back_edge[OF acyc this nb] show False .
    qed
    from "3.IH"(3)[OF False notin acyc] "3.prems"(2,3,4) rest
    obtain v' where
      "hasCycleNeighbors g node rest (visited, recStack) = (False, v', recStack - {node})"
      "visited \<subseteq> v'"
      by auto
    with False notin show ?thesis by auto
  qed
qed

lemma hasCycleLoop_acyclic:
  "acyclic (edges g) \<Longrightarrow> \<not> hasCycleLoop g order (visited, {})"
proof (induction order arbitrary: visited)
  case Nil
  show ?case by simp
next
  case (Cons node rest)
  show ?case
  proof (cases "node \<notin> visited")
    case True
    from hasCycle_sound(1)[of g "(visited, {})" node] Cons.prems True
    obtain v' where "hasCycleDFS g node (visited, {}) = (False, v', {})" by auto
    with True Cons.IH[OF Cons.prems, of v'] show ?thesis by simp
  next
    case False
    with Cons.IH[OF Cons.prems, of visited] show ?thesis by simp
  qed
qed

lemma HasCycle_acyclic: "acyclic (edges g) \<Longrightarrow> \<not> HasCycle order g"
  by (simp add: HasCycle_def hasCycleLoop_acyclic)

text \<open>
  The traversal keeps the invariant and leaves the gray nodes as they were; in an acyclic
  graph a visited neighbour is never gray, so it is finished when the node is appended.
\<close>

lemma topologicalSort_inv:
  "acyclic (edges g) \<Longrightarrow> topo_inv g st \<Longrightarrow> node \<notin> fst st \<Longrightarrow>
     (\<forall>x \<in> gray st. (x, node) \<in> (edges g)\<^sup>*) \<Longrightarrow>
     topo_inv g (topologicalSortDFS g node st)
     \<and> gray (topologicalSortDFS g node st) = gray st
     \<and> fst st \<subseteq> fst (topologicalSortDFS g node st)
     \<and> set (snd st) \<subseteq> set (snd (topologicalSortDFS g node st))
     \<and> node \<in> set (snd (topologicalSortDFS g node st))
     \<and> fst (topologicalSortDFS g node st) \<subseteq> fst st \<union> mentioned g \<union> {node}"
  "acyclic (edges g) \<Longrightarrow> topo_inv g st \<Longrightarrow> node \<in> gray st \<Longrightarrow>
     (\<forall>x \<in> gray st. (x, node) \<in> (edges g)\<^sup>*) \<Longrightarrow>
     set ns \<subseteq> set (GetNeighbors g node) \<Longrightarrow>
     set (GetNeighbors g node) - set ns \<subseteq> set (snd st) \<Longrightarrow>
     topo_inv g (topologicalSortNeighbors g node ns st)
     \<and> gray (topologicalSortNeighbors g node ns st) = gray st - {node}
     \<and> fst st \<subseteq> fst (topologicalSortNeighbors g node ns st)
     \<and> set (snd st) \<subseteq> set (snd (topologicalSortNeighbors g node ns st))
     \<and> node \<in> set (snd (topologicalSortNeighbors g node ns st))
     \<and> fst (topologicalSortNeighbors g node ns st) \<subseteq> fst st \<union> mentioned g"
proof (induction g node st and g node ns st
    rule: topologicalSortDFS_topologicalSortNeighbors.induct)
  case (1 g node visited result)
  let ?st = "(insert node visited, result)"
  let ?r = "topologicalSortNeighbors g node (GetNeighbors g node) ?st"
  have inv: "topo_inv g (visited, result)" by fact
  have nv: "node \<notin> visited" using "1.prems"(3) by simp
  have nr: "node \<notin> set result" using inv nv by (auto simp: topo_inv_def)
  have g: "gray ?st = insert node (gray (visited, result))"
    using nr by (auto simp: gray_def)
  have "topo_inv g ?r \<and> gray ?r = gray ?st - {node} \<and> fst ?st \<subseteq> fst ?r
      \<and> set (snd ?st) \<subseteq> set (snd ?r) \<and> node \<in> set (snd ?r) \<and> fst ?r \<subseteq> fst ?st \<union> mentioned g"
  proof (rule "1.IH")
    show "acyclic (edges g)" by fact
    show "topo_inv g ?st" using inv by (auto simp: topo_inv_def)
    show "node \<in> gray ?st" using g by simp
    show "\<forall>x\<in>gray ?st. (x, node) \<in> (edges g)\<^sup>*" using g "1.prems"(4) by auto
    show "set (GetNeighbors g node) \<subseteq> set (GetNeighbors g node)" by simp
    show "set (GetNeighbors g node) - set (GetNeighbors g node) \<subseteq> set (snd ?st)" by simp
  qed
  moreover have "gray ?st - {node} = gray (visited, result)"
    using g nv by (auto simp: gray_def)
  ultimately show ?case by auto
next
  case (2 g node visited result)
  have inv: "topo_inv g (visited, result)" by fact
  have ng: "node \<in> visited" "node \<notin> set result" using "2.prems"(3) by (auto simp: gray_def)
  have nb: "set (GetNeighbors g node) \<subseteq> set result" using "2.prems"(6) by simp
  have "topo_inv g (visited, result @ [node])"
    using inv ng nb by (auto simp: topo_inv_def)
  moreover have "gray (visited, result @ [node]) = gray (visited, result) - {node}"
    by (auto simp: gray_def)
  ultimately show ?case by auto
next
  case (3 g node neighbor rest visited result)
  let ?st = "(visited, result)"
  have acyc: "acyclic (edges g)" by fact
  have inv: "topo_inv g ?st" by fact
  have ng: "node \<in> gray ?st" by fact
  have reach: "\<forall>x \<in> gray ?st. (x, node) \<in> (edges g)\<^sup>*" by fact
  have nb: "neighbor \<in> set (GetNeighbors g node)" and rest: "set rest \<subseteq> set (GetNeighbors g node)"
    using "3.prems"(5) by auto
  have seen: "set (GetNeighbors g node) - set (neighbor # rest) \<subseteq> set result"
    using "3.prems"(6) by simp
  have edge: "(node, neighbor) \<in> edges g" using nb by (simp add: edges_GetNeighbors)
  show ?case
  proof (cases "neighbor \<notin> visited")
    case True
    let ?s1 = "topologicalSortDFS g neighbor ?st"
    have "\<forall>x \<in> gray ?st. (x, neighbor) \<in> (edges g)\<^sup>*"
      using reach edge by (auto intro: rtrancl_into_rtrancl)
    with "3.IH"(1)[OF True acyc inv] True
    have s1: "topo_inv g ?s1" "gray ?s1 = gray ?st" "fst ?st \<subseteq> fst ?s1"
      "set (snd ?st) \<subseteq> set (snd ?s1)" "neighbor \<in> set (snd ?s1)"
      "fst ?s1 \<subseteq> fst ?st \<union> mentioned g \<union> {neighbor}"
      by auto
    have nbm: "neighbor \<in> mentioned g" using nb GetNeighbors_mentioned[of g node] by auto
    let ?r = "topologicalSortNeighbors g node rest ?s1"
    have "topo_inv g ?r \<and> gray ?r = gray ?s1 - {node} \<and> fst ?s1 \<subseteq> fst ?r
      \<and> set (snd ?s1) \<subseteq> set (snd ?r) \<and> node \<in> set (snd ?r) \<and> fst ?r \<subseteq> fst ?s1 \<union> mentioned g"
    proof (rule "3.IH"(2)[OF True acyc])
      show "topo_inv g ?s1" by fact
      show "node \<in> gray ?s1" using s1(2) ng by simp
      show "\<forall>x\<in>gray ?s1. (x, node) \<in> (edges g)\<^sup>*" using s1(2) reach by simp
      show "set rest \<subseteq> set (GetNeighbors g node)" by fact
      show "set (GetNeighbors g node) - set rest \<subseteq> set (snd ?s1)"
        using seen s1(4,5) by auto
    qed
    moreover have "topologicalSortNeighbors g node (neighbor # rest) ?st = ?r"
      using True by simp
    ultimately show ?thesis using s1 nbm by auto
  next
    case False
    have "neighbor \<notin> gray ?st"
    proof
      assume "neighbor \<in> gray ?st"
      with reach have "(neighbor, node) \<in> (edges g)\<^sup>*" by blast
      from acyclic_no_back_edge[OF acyc this nb] show False .
    qed
    with False have nr: "neighbor \<in> set result" by (simp add: gray_def)
    let ?r = "topologicalSortNeighbors g node rest ?st"
    have "topo_inv g ?r \<and> gray ?r = gray ?st - {node} \<and> fst ?st \<subseteq> fst ?r
      \<and> set (snd ?st) \<subseteq> set (snd ?r) \<and> node \<in> set (snd ?r) \<and> fst ?r \<subseteq> fst ?st \<union> mentioned g"
    proof (rule "3.IH"(3)[OF False acyc inv ng reach rest])
      show "set (GetNeighbors g node) - set rest \<subseteq> set (snd ?st)" using seen nr by auto
    qed
    moreover have "topologicalSortNeighbors g node (neighbor # rest) ?st = ?r"
      using False by simp
    ultimately show ?thesis by simp
  qed
qed

lemma topologicalSortLoop_inv:
  "acyclic (edges g) \<Longrightarrow> topo_inv g st \<Longrightarrow> gray st = {} \<Longrightarrow>
     topo_inv g (topologicalSortLoop g order st)
     \<and> gray (topologicalSortLoop g order st) = {}
     \<and> fst st \<union> set order \<subseteq> fst (topologicalSortLoop g order st)
     \<and> fst (topologicalSortLoop g order st) \<subseteq> fst st \<union> set order \<union> mentioned g"
proof (induction order arbitrary: st)
  case Nil
  then show ?case by simp
next
  case (Cons node rest)
  obtain visited result where st: "st = (visited, result)" by (cases st)
  show ?case
  proof (cases "node \<notin> visited")
    case True
    let ?s1 = "topologicalSortDFS g node st"
    from topologicalSort_inv(1)[OF Cons.prems(1,2), of node] True st Cons.prems(3)
    have s1: "topo_inv g ?s1" "gray ?s1 = {}" "fst st \<subseteq> fst ?s1" "node \<in> set (snd ?s1)"
      "fst ?s1 \<subseteq> fst st \<union> mentioned g \<union> {node}"
      by auto
    have "node \<in> fst ?s1" using s1(1,4) by (auto simp: topo_inv_def)
    with Cons.IH[OF Cons.prems(1) s1(1,2)] s1(3,5) True st show ?thesis by auto
  next
    case False
    with Cons.IH[OF Cons.prems] st show ?thesis by auto
  qed
qed

lemma finishes_later:
  "finishes g (ys @ u # zs) \<Longrightarrow> v \<in> set (GetNeighbors g u) \<Longrightarrow> v \<in> set zs"
  by (induction ys) auto

lemma precedes_split: "v \<in> set zs \<Longrightarrow> precedes u v (ys @ u # zs)"
proof -
  assume "v \<in> set zs"
  then obtain k where k: "k < length zs" "zs ! k = v" by (auto simp: in_set_conv_nth)
  have "length ys < length ys + Suc k" by simp
  moreover have "length ys + Suc k < length (ys @ u # zs)" using k by simp
  moreover have "(ys @ u # zs) ! length ys = u" by simp
  moreover have "(ys @ u # zs) ! (length ys + Suc k) = v" using k by (simp add: nth_append)
  ultimately show ?thesis unfolding precedes_def by blast
qed

text \<open>
  Conversely, a run of the cycle check that finds nothing leaves an order of the nodes in
  which every neighbour is finished before the node, so the graph is acyclic: for every
  order in which the keys are visited, \<open>HasCycle\<close> is true exactly if the edge relation
  has a cycle.
\<close>

lemma takeWhile_before: "x \<in> set xs \<Longrightarrow> length (takeWhile (\<lambda>y. y \<noteq> x) xs) < length xs"
  by (induction xs) auto

lemma hasCycleNeighbors_visited:
  "fst st \<subseteq> fst (snd (hasCycleDFS g node st))"
  "fst st \<subseteq> fst (snd (hasCycleNeighbors g node ns st))"
proof (induction g node st and g node ns st rule: hasCycleDFS_hasCycleNeighbors.induct)
  case (1 g node visited recStack)
  then show ?case by simp
next
  case (2 g node visited recStack)
  show ?case by simp
next
  case (3 g node neighbor rest visited recStack)
  show ?case
  proof (cases "neighbor \<notin> visited")
    case True
    let ?r = "hasCycleDFS g neighbor (visited, recStack)"
    have a: "visited \<subseteq> fst (snd ?r)" using "3.IH"(1)[OF True] by simp
    show ?thesis
    proof (cases "fst ?r")
      case found: True
      with True a show ?thesis by (simp add: Let_def)
    next
      case False
      have "fst (snd ?r) \<subseteq> fst (snd (hasCycleNeighbors g node rest (snd ?r)))"
        using "3.IH"(2)[OF True refl False] by (cases "snd ?r") auto
      with True False a show ?thesis by (auto simp: Let_def)
    qed
  next
    case False
    with "3.IH"(3) show ?thesis by (auto simp: Let_def)
  qed
qed

lemma finishes_acyclic:
  assumes "finishes g xs" "nodes g \<subseteq> set xs"
  shows "acyclic (edges g)"
proof (rule acyclicI_order[where f = "\<lambda>x. length (takeWhile (\<lambda>y. y \<noteq> x) (rev xs))"])
  fix u v assume "(u, v) \<in> edges g"
  then have e: "HasEdge g u v" by (simp add: edges_def)
  then have nb: "v \<in> set (GetNeighbors g u)" by (simp add: HasEdge_GetNeighbors)
  from e have "u \<in> nodes g" by (auto simp: HasEdge_def nodes_lookup split: option.splits)
  with assms(2) have "u \<in> set xs" by blast
  then obtain ys zs where split: "xs = ys @ u # zs" "u \<notin> set zs" by (auto dest: split_list_last)
  with assms(1) nb have v: "v \<in> set zs" using finishes_later[of g ys u zs v] by simp
  have "takeWhile (\<lambda>y. y \<noteq> u) (rev zs @ u # rev ys)
      = rev zs @ takeWhile (\<lambda>y. y \<noteq> u) (u # rev ys)"
    by (rule takeWhile_append2) (use split in auto)
  then have "takeWhile (\<lambda>y. y \<noteq> u) (rev xs) = rev zs"
    using split by simp
  then have fu: "length (takeWhile (\<lambda>y. y \<noteq> u) (rev xs)) = length zs" by simp
  have "takeWhile (\<lambda>y. y \<noteq> v) (rev zs @ u # rev ys) = takeWhile (\<lambda>y. y \<noteq> v) (rev zs)"
    by (rule takeWhile_append1[where x = v]) (use v in auto)
  then have "takeWhile (\<lambda>y. y \<noteq> v) (rev xs) = takeWhile (\<lambda>y. y \<noteq> v) (rev zs)"
    using split by simp
  moreover have "length (takeWhile (\<lambda>y. y \<noteq> v) (rev zs)) < length (rev zs)"
    using v by (intro takeWhile_before) simp
  ultimately show "length (takeWhile (\<lambda>y. y \<noteq> v) (rev xs)) < length (takeWhile (\<lambda>y. y \<noteq> u) (rev xs))"
    using fu by simp
qed

lemma hasCycle_complete:
  "\<not> fst (hasCycleDFS g node st) \<Longrightarrow> snd st \<subseteq> fst st \<Longrightarrow> node \<notin> fst st \<Longrightarrow>
     set F = fst st - snd st \<Longrightarrow> finishes g (rev F) \<Longrightarrow>
     snd (snd (hasCycleDFS g node st)) = snd st
     \<and> fst st \<subseteq> fst (snd (hasCycleDFS g node st))
     \<and> (\<exists>F'. set F' = fst (snd (hasCycleDFS g node st)) - snd st \<and> finishes g (rev F'))"
  "\<not> fst (hasCycleNeighbors g node ns st) \<Longrightarrow> snd st \<subseteq> fst st \<Longrightarrow> node \<in> snd st \<Longrightarrow>
     set F = fst st - snd st \<Longrightarrow> finishes g (rev F) \<Longrightarrow>
     set (GetNeighbors g node) - set ns \<subseteq> set F \<Longrightarrow>
     snd (snd (hasCycleNeighbors g node ns st)) = snd st - {node}
     \<and> fst st \<subseteq> fst (snd (hasCycleNeighbors g node ns st))
     \<and> (\<exists>F'. set F' = fst (snd (hasCycleNeighbors g node ns st)) - (snd st - {node})
             \<and> finishes g (rev F'))"
proof (induction g node st and g node ns st arbitrary: F and F
    rule: hasCycleDFS_hasCycleNeighbors.induct)
  case (1 g node visited recStack)
  let ?st = "(insert node visited, insert node recStack)"
  let ?r = "hasCycleNeighbors g node (GetNeighbors g node) ?st"
  have nr: "node \<notin> recStack" using "1.prems"(2,3) by auto
  have "snd (snd ?r) = snd ?st - {node} \<and> fst ?st \<subseteq> fst (snd ?r)
      \<and> (\<exists>F'. set F' = fst (snd ?r) - (snd ?st - {node}) \<and> finishes g (rev F'))"
  proof (rule "1.IH"[of F])
    show "\<not> fst ?r" using "1.prems"(1) by simp
    show "snd ?st \<subseteq> fst ?st" using "1.prems"(2) by auto
    show "node \<in> snd ?st" by simp
    show "set F = fst ?st - snd ?st" using "1.prems"(3,4) by auto
    show "finishes g (rev F)" by fact
    show "set (GetNeighbors g node) - set (GetNeighbors g node) \<subseteq> set F" by simp
  qed
  moreover have "snd ?st - {node} = recStack" using nr by auto
  ultimately show ?case by auto
next
  case (2 g node visited recStack)
  have n: "node \<in> recStack" "node \<in> visited" using "2.prems"(2,3) by auto
  have "set (F @ [node]) = visited - (recStack - {node})"
    using "2.prems"(4) n by auto
  moreover have "finishes g (rev (F @ [node]))"
    using "2.prems"(5,6) by simp
  ultimately have "\<exists>F'. set F' = visited - (recStack - {node}) \<and> finishes g (rev F')"
    by blast
  then show ?case by simp
next
  case (3 g node neighbor rest visited recStack)
  let ?st = "(visited, recStack)"
  have sub: "recStack \<subseteq> visited" using "3.prems"(2) by simp
  have node: "node \<in> recStack" using "3.prems"(3) by simp
  have F: "set F = visited - recStack" using "3.prems"(4) by simp
  have fin: "finishes g (rev F)" by fact
  have seen: "set (GetNeighbors g node) - set (neighbor # rest) \<subseteq> set F" by fact
  show ?case
  proof (cases "neighbor \<notin> visited")
    case True
    let ?r1 = "hasCycleDFS g neighbor ?st"
    have nf: "\<not> fst ?r1"
    proof
      assume "fst ?r1"
      then have "fst (hasCycleNeighbors g node (neighbor # rest) ?st)" using True by simp
      with "3.prems"(1) show False by simp
    qed
    from "3.IH"(1)[OF True nf, of F] sub True F fin
    obtain F1 where r1: "snd (snd ?r1) = recStack" "visited \<subseteq> fst (snd ?r1)"
      "set F1 = fst (snd ?r1) - recStack" "finishes g (rev F1)"
      by auto
    have eq: "hasCycleNeighbors g node (neighbor # rest) ?st
        = hasCycleNeighbors g node rest (snd ?r1)"
      using True nf by (simp add: Let_def)
    have nv: "neighbor \<in> fst (snd ?r1)"
    proof -
      obtain b v1 s1 where r: "?r1 = (b, v1, s1)" by (cases ?r1) auto
      have "hasCycleDFS g neighbor ?st
          = hasCycleNeighbors g neighbor (GetNeighbors g neighbor) (insert neighbor visited, insert neighbor recStack)"
        by simp
      moreover have "insert neighbor visited
          \<subseteq> fst (snd (hasCycleNeighbors g neighbor (GetNeighbors g neighbor) (insert neighbor visited, insert neighbor recStack)))"
        using hasCycleNeighbors_visited by (metis fst_conv)
      ultimately show ?thesis by auto
    qed
    let ?r = "hasCycleNeighbors g node rest (snd ?r1)"
    have "snd (snd ?r) = snd (snd ?r1) - {node} \<and> fst (snd ?r1) \<subseteq> fst (snd ?r)
      \<and> (\<exists>F'. set F' = fst (snd ?r) - (snd (snd ?r1) - {node}) \<and> finishes g (rev F'))"
    proof (rule "3.IH"(2)[OF True refl nf, of F1])
      show "\<not> fst ?r" using "3.prems"(1) eq by simp
      show "snd (snd ?r1) \<subseteq> fst (snd ?r1)" using r1(1,2) sub by auto
      show "node \<in> snd (snd ?r1)" using r1(1) node by simp
      show "set F1 = fst (snd ?r1) - snd (snd ?r1)" using r1(1,3) by simp
      show "finishes g (rev F1)" by fact
      have "neighbor \<in> set F1" using r1(3) nv True sub by auto
      moreover have "set F \<subseteq> set F1" using F r1(2,3) by auto
      ultimately show "set (GetNeighbors g node) - set rest \<subseteq> set F1" using seen by auto
    qed
    with eq r1(1,2) show ?thesis by auto
  next
    case False
    have nr: "neighbor \<notin> recStack"
    proof
      assume "neighbor \<in> recStack"
      then have "fst (hasCycleNeighbors g node (neighbor # rest) ?st)" using False by simp
      with "3.prems"(1) show False by simp
    qed
    have eq: "hasCycleNeighbors g node (neighbor # rest) ?st = hasCycleNeighbors g node rest ?st"
      using False nr by simp
    have "neighbor \<in> set F" using F False nr by simp
    with seen have "set (GetNeighbors g node) - set rest \<subseteq> set F" by auto
    from "3.IH"(3)[OF False nr _ "3.prems"(2,3,4) fin this] "3.prems"(1) eq
    show ?thesis by simp
  qed
qed

lemma hasCycleLoop_complete:
  "\<not> hasCycleLoop g order (visited, {}) \<Longrightarrow> set F = visited \<Longrightarrow> finishes g (rev F) \<Longrightarrow>
     \<exists>F'. visited \<union> set order \<subseteq> set F' \<and> finishes g (rev F')"
proof (induction order arbitrary: visited F)
  case Nil
  then show ?case by auto
next
  case (Cons node rest)
  show ?case
  proof (cases "node \<notin> visited")
    case True
    let ?r = "hasCycleDFS g node (visited, {})"
    have nf: "\<not> fst ?r" using Cons.prems(1) True by (auto simp: Let_def)
    from hasCycle_complete(1)[of g node "(visited, {})" F] nf True Cons.prems(2,3)
    obtain F1 where r: "snd (snd ?r) = {}" "visited \<subseteq> fst (snd ?r)"
      "set F1 = fst (snd ?r)" "finishes g (rev F1)" by auto
    have sr: "snd ?r = (fst (snd ?r), {})" using r(1) by (cases "snd ?r") simp
    have "\<not> hasCycleLoop g rest (fst (snd ?r), {})"
      using Cons.prems(1) True nf sr by (simp add: Let_def)
    from Cons.IH[OF this r(3,4)] obtain F' where
      F': "fst (snd ?r) \<union> set rest \<subseteq> set F'" "finishes g (rev F')" by blast
    have "node \<in> fst (snd ?r)"
      using hasCycleNeighbors_visited(2)[of "(insert node visited, insert node {})" g node
          "GetNeighbors g node"] by simp
    with F' r(2) show ?thesis by (intro exI[of _ F']) auto
  next
    case False
    then have "\<not> hasCycleLoop g rest (visited, {})" using Cons.prems(1) by simp
    from Cons.IH[OF this Cons.prems(2,3)] False show ?thesis by auto
  qed
qed

lemma HasCycle_iff:
  assumes "enumerates g order"
  shows "HasCycle order g \<longleftrightarrow> \<not> acyclic (edges g)"
proof
  assume "HasCycle order g"
  then show "\<not> acyclic (edges g)" using HasCycle_acyclic by blast
next
  assume c: "\<not> acyclic (edges g)"
  show "HasCycle order g"
  proof (rule ccontr)
    assume "\<not> HasCycle order g"
    then have "\<not> hasCycleLoop g order ({}, {})" by (simp add: HasCycle_def)
    from hasCycleLoop_complete[OF this, of "[]"] obtain F' where
      "set order \<subseteq> set F'" "finishes g (rev F')" by auto
    then have "acyclic (edges g)"
      using finishes_acyclic[of g "rev F'"] assms by (simp add: enumerates_def)
    with c show False by contradiction
  qed
qed


lemma nodes_mentioned: "nodes g \<subseteq> mentioned g"
  by (auto simp: nodes_def mentioned_def)

text \<open>
  Claim C7. \<open>TopologicalSort\<close> returns \<open>(empty, false)\<close> when the graph is undirected
  or \<open>HasCycle\<close> is true, and \<open>HasCycle\<close> is true exactly if the edge relation has a
  cycle, in whichever order its loop sees the keys. On a directed acyclic graph it returns \<open>true\<close> and a sequence
  without repetition that contains every node (and nothing but nodes and neighbours of
  nodes), in which \<open>u\<close> comes before \<open>v\<close> for every edge \<open>(u, v)\<close>. This holds for
  every order \<open>order1\<close> in which the loop of \<open>HasCycle\<close> may see the keys and every
  enumeration \<open>order2\<close> of the keys seen by the loop of \<open>TopologicalSort\<close>.
\<close>

theorem TopologicalSort_correct:
  "(\<not> directed g \<or> HasCycle order1 g \<longrightarrow> TopologicalSort order1 order2 g = Inr ([], False))
   \<and> (enumerates g order1 \<longrightarrow> HasCycle order1 g = (\<not> acyclic (edges g)))
   \<and> (directed g \<and> acyclic (edges g) \<and> enumerates g order2 \<longrightarrow>
        (\<exists>sorted. TopologicalSort order1 order2 g = Inr (sorted, True)
           \<and> distinct sorted \<and> nodes g \<subseteq> set sorted \<and> set sorted \<subseteq> mentioned g
           \<and> (\<forall>u v. HasEdge g u v \<longrightarrow> precedes u v sorted)))"
proof (intro conjI impI)
  assume "\<not> directed g \<or> HasCycle order1 g"
  then show "TopologicalSort order1 order2 g = Inr ([], False)"
    by (auto simp: TopologicalSort_def)
next
  assume "enumerates g order1"
  then show "HasCycle order1 g = (\<not> acyclic (edges g))" by (rule HasCycle_iff)
next
  assume a: "directed g \<and> acyclic (edges g) \<and> enumerates g order2"
  then have acyc: "acyclic (edges g)" and enum: "set order2 = nodes g"
    by (simp_all add: enumerates_def)
  let ?st = "topologicalSortLoop g order2 ({}, [])"
  let ?sorted = "rev (snd ?st)"
  have "topo_inv g ({}, [])" "gray ({}, []) = {}" by (simp_all add: topo_inv_def gray_def)
  from topologicalSortLoop_inv[OF acyc this, of order2]
  have inv: "topo_inv g ?st" and gr: "gray ?st = {}" and all: "set order2 \<subseteq> fst ?st"
    and only: "fst ?st \<subseteq> set order2 \<union> mentioned g"
    by auto
  have vis: "fst ?st = set (snd ?st)" using inv gr by (auto simp: topo_inv_def gray_def)
  have ts: "TopologicalSort order1 order2 g = Inr (?sorted, True)"
    using a HasCycle_acyclic[OF acyc, of order1]
    by (simp add: TopologicalSort_def reverseLoop_rev)
  have d: "distinct ?sorted" using inv by (simp add: topo_inv_def)
  have n: "nodes g \<subseteq> set ?sorted" using all vis enum by simp
  have m: "set ?sorted \<subseteq> mentioned g" using only vis enum nodes_mentioned[of g] by auto
  have fin: "finishes g ?sorted" using inv by (simp add: topo_inv_def)
  have "precedes u v ?sorted" if e: "HasEdge g u v" for u v
  proof -
    from e have nb: "v \<in> set (GetNeighbors g u)" by (simp add: HasEdge_GetNeighbors)
    from e have "u \<in> nodes g" by (auto simp: HasEdge_def nodes_lookup split: option.splits)
    with n have "u \<in> set ?sorted" by blast
    then obtain ys zs where split: "?sorted = ys @ u # zs" by (auto simp: in_set_conv_decomp)
    with fin nb have "v \<in> set zs" using finishes_later[of g ys u zs v] by simp
    then show ?thesis unfolding split by (rule precedes_split)
  qed
  with ts d n m show "\<exists>sorted. TopologicalSort order1 order2 g = Inr (sorted, True)
           \<and> distinct sorted \<and> nodes g \<subseteq> set sorted \<and> set sorted \<subseteq> mentioned g
           \<and> (\<forall>u v. HasEdge g u v \<longrightarrow> precedes u v sorted)" by blast
qed

lemma dag_adjacency:
  "NewGraphFromEdges [(1::int, 2), (1, 3), (2, 4), (3, 4)] True
     = \<lparr>adjacency = [(1, [2, 3]), (2, [4]), (3, [4]), (4, [])], directed = True\<rparr>"
  by (simp add: NewGraphFromEdges_def AddEdge_def AddNode_def NewGraph_def adjacency_at_def)

lemma dag_acyclic:
  "acyclic (edges \<lparr>adjacency = [(1::int, [2, 3]), (2, [4]), (3, [4]), (4, [])], directed = True\<rparr>)"
  by (rule acyclicI_order[where f = uminus]) (auto simp: edges_def HasEdge_def split: if_splits)

theorem TopologicalSort_correct_witness:
  "directed (NewGraphFromEdges [(1::int, 2), (1, 3), (2, 4), (3, 4)] True)
   \<and> acyclic (edges (NewGraphFromEdges [(1::int, 2), (1, 3), (2, 4), (3, 4)] True))
   \<and> enumerates (NewGraphFromEdges [(1::int, 2), (1, 3), (2, 4), (3, 4)] True) [3, 1, 4, 2]
   \<and> TopologicalSort [1, 2, 4, 3] [3, 1, 4, 2]
        (NewGraphFromEdges [(1::int, 2), (1, 3), (2, 4), (3, 4)] True) = Inr ([1, 2, 3, 4], True)
   \<and> precedes 1 2 [1, 2, 3, 4 :: int] \<and> precedes 1 3 [1, 2, 3, 4 :: int]
   \<and> precedes 2 4 [1, 2, 3, 4 :: int] \<and> precedes 3 4 [1, 2, 3, 4 :: int]
   \<and> HasCycle [1, 2] (NewGraphFromEdges [(1::int, 2), (2, 1)] True)
   \<and> TopologicalSort [1, 2] [2, 1] (NewGraphFromEdges [(1::int, 2), (2, 1)] True) = Inr ([], False)"
proof -
  let ?g = "NewGraphFromEdges [(1::int, 2), (1, 3), (2, 4), (3, 4)] True"
  let ?c = "NewGraphFromEdges [(1::int, 2), (2, 1)] True"
  have hyp: "directed ?g \<and> acyclic (edges ?g) \<and> enumerates ?g [3, 1, 4, 2]"
    using dag_acyclic by (auto simp: dag_adjacency enumerates_def nodes_def)
  have ev: "TopologicalSort [1, 2, 4, 3] [3, 1, 4, 2] ?g = Inr ([1, 2, 3, 4], True)"
    by (simp add: dag_adjacency TopologicalSort_def HasCycle_def GetNeighbors_def reverseLoop_rev)
  from TopologicalSort_correct[of ?g "[1, 2, 4, 3]" "[3, 1, 4, 2]"] hyp
  obtain sorted where "TopologicalSort [1, 2, 4, 3] [3, 1, 4, 2] ?g = Inr (sorted, True)"
    "\<forall>u v. HasEdge ?g u v \<longrightarrow> precedes u v sorted" by blast
  with ev have "\<forall>u v. HasEdge ?g u v \<longrightarrow> precedes u v [1, 2, 3, 4]" by simp
  moreover have "HasEdge ?g 1 2" "HasEdge ?g 1 3" "HasEdge ?g 2 4" "HasEdge ?g 3 4"
    by (simp_all add: dag_adjacency HasEdge_def)
  ultimately have prec: "precedes 1 2 [1, 2, 3, 4 :: int] \<and> precedes 1 3 [1, 2, 3, 4 :: int]
      \<and> precedes 2 4 [1, 2, 3, 4 :: int] \<and> precedes 3 4 [1, 2, 3, 4 :: int]"
    by blast
  have cyc: "HasCycle [1, 2] ?c"
    by (simp add: NewGraphFromEdges_def AddEdge_def AddNode_def NewGraph_def adjacency_at_def
        HasCycle_def GetNeighbors_def)
  with TopologicalSort_correct[of ?c "[1, 2]" "[2, 1]"]
  have "TopologicalSort [1, 2] [2, 1] ?c = Inr ([], False)" by blast
  with hyp ev prec cyc show ?thesis by blast
qed

end
